theory Spec2Isabelle
  imports Main "HOL-Library.Word"
begin

unbundle bit_operations_syntax

section \<open>The WD1770 floppy disk controller (1770.cpp)\<close>

text \<open>
  The member variables of the class are the fields of a record. The source's names end in
  an underscore (\<open>state_\<close>, \<open>track_\<close>, ...), which is not a legal end of an Isabelle name,
  so the underscore is dropped. The header 1770.hpp is not part of the sources at hand: the
  8-bit registers are \<open>8 word\<close> (\<open>set_register\<close> takes and \<open>get_register\<close> returns
  \<open>uint8_t\<close>), the cycle accumulator is the \<open>unsigned int\<close> of \<open>run_for_cycles\<close>, and the two
  counters are C \<open>int\<close>s read as mathematical integers.
\<close>

datatype State =
    Waiting
  | BeginType1 | BeginType1PostSpin
  | BeginType2 | BeginType3
  | WaitForSixIndexPulses
  | TestTrack | TestDirection | TestHead | StepDelay | TestVerify | VerifyTrack
  | TestPause | TestWrite

text \<open>
  The values of the status flags are declared in the absent header; they are a parameter of
  the model.
\<close>

record Flag =
  MotorOn :: "8 word"
  RecordNotFound :: "8 word"
  CRCError :: "8 word"
  LostData :: "8 word"
  DataRequest :: "8 word"
  Busy :: "8 word"

text \<open>
  Modelled from the spec: the base class \<open>Storage::Disk::Drive\<close>, which is not part of the
  sources at hand. The spec describes it as exposing \<open>step(direction)\<close>,
  \<open>get_is_track_zero()\<close> and a per-cycle rotation, which reports index-hole crossings and
  bits back through \<open>process_index_hole\<close> and \<open>process_input_bit\<close>. Its state is the type
  \<open>'d\<close>; advancing it by one cycle gives the new drive and the number of index holes it
  reported on the way (\<open>process_input_bit\<close> has an empty body).
\<close>

record 'd Drive =
  drive_run_for_one_cycle :: "'d \<Rightarrow> 'd \<times> nat"
  step :: "int \<Rightarrow> 'd \<Rightarrow> 'd"
  get_is_track_zero :: "'d \<Rightarrow> bool"

record 'd WD1770 =
  drive :: 'd
  state :: State
  status :: "8 word"
  has_command :: bool
  command :: "8 word"
  track :: "8 word"
  sector :: "8 word"
  data :: "8 word"
  data_shift_register :: "8 word"
  is_step_in :: bool
  cycles :: "32 word"
  index_hole_count :: int
  wait_six_index_pulses_next_state :: State
  step_delay_count :: int
  interrupt_request :: bool
  has_hit_error :: bool
  printed :: "State list"

text \<open>
  \<open>interrupt_request\<close> is the line that \<open>set_interrupt_request\<close> drives.
  \<open>has_hit_error\<close> is the function-local \<open>static bool\<close> of \<open>run_for_cycles\<close>, which no
  constructor resets, and \<open>printed\<close> collects the states that \<open>printf\<close> reported.
\<close>

text \<open>
  The constructor initialises \<open>state_\<close>, \<open>status_\<close> and \<open>has_command_\<close>; every other member
  keeps the indeterminate value \<open>u\<close> gives it.
\<close>

definition WD1770_new :: "'d WD1770 \<Rightarrow> 'd WD1770" where
  "WD1770_new u = u\<lparr>state := Waiting, status := 0, has_command := False\<rparr>"

definition set_register :: "int \<Rightarrow> 8 word \<Rightarrow> 'd WD1770 \<Rightarrow> 'd WD1770" where
  "set_register address v s =
     (if address AND 3 = 0 then s\<lparr>command := v, has_command := True\<rparr>
      else if address AND 3 = 1 then s\<lparr>track := v\<rparr>
      else if address AND 3 = 2 then s\<lparr>sector := v\<rparr>
      else s\<lparr>data := v\<rparr>)"

definition get_register :: "int \<Rightarrow> 'd WD1770 \<Rightarrow> 8 word" where
  "get_register address s =
     (if address AND 3 = 1 then track s
      else if address AND 3 = 2 then sector s
      else if address AND 3 = 3 then data s
      else status s)"

text \<open>
  Modelled from the spec: \<open>set_interrupt_request\<close>, which is declared in the absent header.
  The spec has a Type 1 command end by "clearing busy and raising interrupt"; the function
  sets the interrupt request line to its argument.
\<close>

definition set_interrupt_request :: "bool \<Rightarrow> 'd WD1770 \<Rightarrow> 'd WD1770" where
  "set_interrupt_request b s = s\<lparr>interrupt_request := b\<rparr>"

definition process_index_hole :: "'d WD1770 \<Rightarrow> 'd WD1770" where
  "process_index_hole s =
     (let s1 = s\<lparr>index_hole_count := index_hole_count s + 1\<rparr>
      in if state s1 = WaitForSixIndexPulses \<and> index_hole_count s1 = 6
         then s1\<lparr>state := wait_six_index_pulses_next_state s1\<rparr>
         else s1)"

text \<open>
  \<open>Storage::Disk::Drive::run_for_cycles(1)\<close>, called on the controller itself: the drive
  advances and each index hole it passes comes back as a call of \<open>process_index_hole\<close>.
\<close>

definition Drive_run_for_cycles_1 :: "'d Drive \<Rightarrow> 'd WD1770 \<Rightarrow> 'd WD1770" where
  "Drive_run_for_cycles_1 D s =
     (let (d, holes) = drive_run_for_one_cycle D (drive s)
      in (process_index_hole ^^ holes) (s\<lparr>drive := d\<rparr>))"

subsection \<open>The cases of the switch in \<open>run_for_cycles\<close>\<close>

definition case_Waiting :: "'d WD1770 \<Rightarrow> 'd WD1770" where
  "case_Waiting s =
     (if has_command s
      then s\<lparr>has_command := False,
             state := (if command s AND 0x80 \<noteq> 0
                       then (if command s AND 0x40 \<noteq> 0 then BeginType3 else BeginType2)
                       else BeginType1)\<rparr>
      else s)"

definition case_WaitForSixIndexPulses :: "Flag \<Rightarrow> 'd WD1770 \<Rightarrow> 'd WD1770" where
  "case_WaitForSixIndexPulses F s = s\<lparr>status := status s OR MotorOn F\<rparr>"

definition case_BeginType1 :: "Flag \<Rightarrow> 'd WD1770 \<Rightarrow> 'd WD1770" where
  "case_BeginType1 F s =
     (let s1 = s\<lparr>status := status s OR Busy F\<rparr>;
          s2 = s1\<lparr>status := status s1 AND NOT (DataRequest F OR CRCError F)\<rparr>;
          s3 = set_interrupt_request False s2;
          s4 = s3\<lparr>state := BeginType1PostSpin\<rparr>
      in if command s4 AND 0x08 \<noteq> 0
         then s4\<lparr>wait_six_index_pulses_next_state := state s4,
                 index_hole_count := 0,
                 state := WaitForSixIndexPulses\<rparr>
         else s4)"

definition case_BeginType1PostSpin :: "'d WD1770 \<Rightarrow> 'd WD1770" where
  "case_BeginType1PostSpin s =
     (let c = drop_bit 4 (command s);
          s1 = (if c = 0 then s\<lparr>track := 0xff, data := 0x00\<rparr>
                else if c = 1 then s\<lparr>data := 0x00\<rparr>
                else if c = 2 \<or> c = 3 then s
                else if c = 4 \<or> c = 5 then s\<lparr>is_step_in := True\<rparr>
                else if c = 6 \<or> c = 7 then s\<lparr>is_step_in := False\<rparr>
                else s)
      in if drop_bit 5 (command s1) = 0
         then s1\<lparr>state := TestTrack\<rparr>
         else s1\<lparr>state := (if command s1 AND 0x10 \<noteq> 0 then TestDirection else TestHead)\<rparr>)"

definition case_TestTrack :: "'d WD1770 \<Rightarrow> 'd WD1770" where
  "case_TestTrack s =
     (let s1 = s\<lparr>data_shift_register := data s\<rparr>
      in if track s1 = data_shift_register s1
         then s1\<lparr>state := TestVerify\<rparr>
         else s1\<lparr>is_step_in := (data_shift_register s1 < track s1), state := TestDirection\<rparr>)"

definition case_TestDirection :: "'d WD1770 \<Rightarrow> 'd WD1770" where
  "case_TestDirection s =
     s\<lparr>track := track s + (if is_step_in s then - 1 else 1), state := TestHead\<rparr>"

definition case_TestHead :: "'d Drive \<Rightarrow> 'd WD1770 \<Rightarrow> 'd WD1770" where
  "case_TestHead D s =
     (if get_is_track_zero D (drive s) \<and> \<not> is_step_in s
      then s\<lparr>track := 0, state := TestVerify\<rparr>
      else s\<lparr>drive := step D (if is_step_in s then 1 else - 1) (drive s),
             state := StepDelay,
             step_delay_count := 0\<rparr>)"

definition case_StepDelay :: "'d WD1770 \<Rightarrow> 'd WD1770" where
  "case_StepDelay s =
     (let s1 = (if step_delay_count s = uint (command s AND 3)
                then s\<lparr>state := (if drop_bit 5 (command s) \<noteq> 0 then TestVerify else TestTrack)\<rparr>
                else s)
      in s1\<lparr>step_delay_count := step_delay_count s1 + 1\<rparr>)"

definition case_TestVerify :: "Flag \<Rightarrow> 'd WD1770 \<Rightarrow> 'd WD1770" where
  "case_TestVerify F s =
     (if command s AND 0x04 \<noteq> 0
      then s\<lparr>state := VerifyTrack\<rparr>
      else (let s1 = set_interrupt_request True s;
                s2 = s1\<lparr>status := status s1 AND NOT (Busy F)\<rparr>
            in s2\<lparr>state := Waiting\<rparr>))"

definition case_BeginType2 :: "Flag \<Rightarrow> 'd WD1770 \<Rightarrow> 'd WD1770" where
  "case_BeginType2 F s =
     (let s1 = s\<lparr>status := status s OR Busy F\<rparr>;
          s2 = s1\<lparr>status := status s1 AND
                  NOT (DataRequest F OR LostData F OR RecordNotFound F OR 0x60)\<rparr>;
          s3 = s2\<lparr>state := TestPause\<rparr>
      in if command s3 AND 0x08 = 0
         then s3\<lparr>wait_six_index_pulses_next_state := state s3,
                 index_hole_count := 0,
                 state := WaitForSixIndexPulses\<rparr>
         else s3)"

definition case_TestPause :: "'d WD1770 \<Rightarrow> 'd WD1770" where
  "case_TestPause s = s\<lparr>state := TestWrite\<rparr>"

text \<open>The \<open>default\<close> label: report the state once, remember that, and return.\<close>

definition case_default :: "'d WD1770 \<Rightarrow> 'd WD1770" where
  "case_default s =
     (let s1 = (if \<not> has_hit_error s then s\<lparr>printed := printed s @ [state s]\<rparr> else s)
      in s1\<lparr>has_hit_error := True\<rparr>)"

text \<open>
  The switch. The boolean says how the case ends: \<open>True\<close> for \<open>continue\<close> (back to the loop
  condition), \<open>False\<close> for the \<open>return\<close> of the default label.
\<close>

definition switch_state :: "Flag \<Rightarrow> 'd Drive \<Rightarrow> 'd WD1770 \<Rightarrow> 'd WD1770 \<times> bool" where
  "switch_state F D s =
     (case state s of
        Waiting \<Rightarrow> (case_Waiting s, True)
      | WaitForSixIndexPulses \<Rightarrow> (case_WaitForSixIndexPulses F s, True)
      | BeginType1 \<Rightarrow> (case_BeginType1 F s, True)
      | BeginType1PostSpin \<Rightarrow> (case_BeginType1PostSpin s, True)
      | TestTrack \<Rightarrow> (case_TestTrack s, True)
      | TestDirection \<Rightarrow> (case_TestDirection s, True)
      | TestHead \<Rightarrow> (case_TestHead D s, True)
      | StepDelay \<Rightarrow> (case_StepDelay s, True)
      | TestVerify \<Rightarrow> (case_TestVerify F s, True)
      | BeginType2 \<Rightarrow> (case_BeginType2 F s, True)
      | TestPause \<Rightarrow> (case_TestPause s, True)
      | _ \<Rightarrow> (case_default s, False))"

text \<open>
  One pass through the body of the \<open>while\<close> loop: eight cycles are taken from the
  accumulator, the drive runs for one cycle if the motor is on, then the switch.
\<close>

definition before_switch :: "Flag \<Rightarrow> 'd Drive \<Rightarrow> 'd WD1770 \<Rightarrow> 'd WD1770" where
  "before_switch F D s =
     (let s1 = s\<lparr>cycles := cycles s - 8\<rparr>
      in if status s1 AND MotorOn F \<noteq> 0 then Drive_run_for_cycles_1 D s1 else s1)"

definition loop_body :: "Flag \<Rightarrow> 'd Drive \<Rightarrow> 'd WD1770 \<Rightarrow> 'd WD1770 \<times> bool" where
  "loop_body F D s = switch_state F D (before_switch F D s)"

lemma cycles_process_index_hole [simp]: "cycles (process_index_hole s) = cycles s"
  by (simp add: process_index_hole_def Let_def)

lemma cycles_process_index_holes [simp]: "cycles ((process_index_hole ^^ n) s) = cycles s"
  by (induction n) simp_all

lemma cycles_Drive_run [simp]: "cycles (Drive_run_for_cycles_1 D s) = cycles s"
  by (simp add: Drive_run_for_cycles_1_def split: prod.splits)

lemma cycles_switch_state [simp]: "cycles (fst (switch_state F D s)) = cycles s"
  by (simp add: switch_state_def case_Waiting_def case_WaitForSixIndexPulses_def
      case_BeginType1_def case_BeginType1PostSpin_def case_TestTrack_def case_TestDirection_def
      case_TestHead_def case_StepDelay_def case_TestVerify_def case_BeginType2_def
      case_TestPause_def case_default_def set_interrupt_request_def Let_def
      split: State.splits)

lemma cycles_before_switch [simp]: "cycles (before_switch F D s) = cycles s - 8"
  by (simp add: before_switch_def Let_def)

lemma cycles_loop_body [simp]: "cycles (fst (loop_body F D s)) = cycles s - 8"
  by (simp add: loop_body_def)

lemma unat_cycles_less: "8 < (c :: 32 word) \<Longrightarrow> unat (c - 8) < unat c"
  by (simp add: unat_sub word_le_nat_alt word_less_nat_alt)

function run_loop :: "Flag \<Rightarrow> 'd Drive \<Rightarrow> 'd WD1770 \<Rightarrow> 'd WD1770" where
  "run_loop F D s =
     (if 8 < cycles s
      then (let r = loop_body F D s in if snd r then run_loop F D (fst r) else fst r)
      else s)"
  by pat_completeness auto
termination
  by (relation "measure (\<lambda>(F, D, s). unat (cycles s))") (simp_all add: unat_cycles_less)

declare run_loop.simps [simp del]

definition run_for_cycles :: "Flag \<Rightarrow> 'd Drive \<Rightarrow> 32 word \<Rightarrow> 'd WD1770 \<Rightarrow> 'd WD1770" where
  "run_for_cycles F D number_of_cycles s = run_loop F D (s\<lparr>cycles := cycles s + number_of_cycles\<rparr>)"

subsection \<open>Concrete objects for evaluation\<close>

text \<open>
  The status register layout of the WD1770 data sheet, a small drive whose state is the
  number of cycles it has run and the position of its head (an index hole every fifth
  cycle), and a controller on it with every member at zero.
\<close>

definition datasheet_flags :: Flag where
  "datasheet_flags =
     \<lparr>MotorOn = 0x80, RecordNotFound = 0x10, CRCError = 0x08, LostData = 0x04,
      DataRequest = 0x02, Busy = 0x01\<rparr>"

definition test_drive :: "(nat \<times> int) Drive" where
  "test_drive =
     \<lparr>drive_run_for_one_cycle = (\<lambda>(n, h). ((n + 1, h), if (n + 1) mod 5 = 0 then 1 else 0)),
      step = (\<lambda>direction (n, h). (n, max 0 (h + direction))),
      get_is_track_zero = (\<lambda>(n, h). h = 0)\<rparr>"

definition blank :: "(nat \<times> int) WD1770" where
  "blank =
     \<lparr>drive = (0, 0), state = Waiting, status = 0, has_command = False, command = 0,
      track = 0, sector = 0, data = 0, data_shift_register = 0, is_step_in = False,
      cycles = 0, index_hole_count = 0, wait_six_index_pulses_next_state = Waiting,
      step_delay_count = 0, interrupt_request = False, has_hit_error = False, printed = []\<rparr>"

subsection \<open>The path of a restore command\<close>

text \<open>
  A restore command without verify and with bit 3 clear is a command byte below 4. It takes
  three passes of the loop to \<open>TestTrack\<close> with the track register at \<open>0xff\<close> and the data
  register at 0, then \<open>4 + r\<close> passes for each of the 255 steps (\<open>r\<close> is the low two bits of
  the command), and two passes back to \<open>Waiting\<close>. \<open>restore_remaining\<close> counts the passes
  still to go at each place of that path, and \<open>restore_inv\<close> says that the controller is on
  the path.
\<close>

definition restore_ticks :: "8 word \<Rightarrow> nat" where
  "restore_ticks c = 5 + 255 * (4 + unat (c AND 3))"

definition restore_remaining :: "'d WD1770 \<Rightarrow> nat" where
  "restore_remaining s =
     (let r = unat (command s AND 3); t = unat (track s)
      in case state s of
           Waiting \<Rightarrow> if has_command s then 5 + 255 * (4 + r) else 0
         | BeginType1 \<Rightarrow> 4 + 255 * (4 + r)
         | BeginType1PostSpin \<Rightarrow> 3 + 255 * (4 + r)
         | TestTrack \<Rightarrow> 2 + t * (4 + r)
         | TestDirection \<Rightarrow> 1 + t * (4 + r)
         | TestHead \<Rightarrow> 4 + r + t * (4 + r)
         | StepDelay \<Rightarrow> 3 + r - nat (step_delay_count s) + t * (4 + r)
         | TestVerify \<Rightarrow> 1
         | _ \<Rightarrow> 0)"

definition restore_inv :: "Flag \<Rightarrow> 'd WD1770 \<Rightarrow> bool" where
  "restore_inv F s =
     (command s < 4 \<and>
      (case state s of
         Waiting \<Rightarrow> has_command s \<or>
                      (interrupt_request s \<and> status s AND Busy F = 0 \<and> track s = 0 \<and> data s = 0)
       | BeginType1 \<Rightarrow> \<not> has_command s
       | BeginType1PostSpin \<Rightarrow> \<not> has_command s
       | TestTrack \<Rightarrow> \<not> has_command s \<and> data s = 0
       | TestDirection \<Rightarrow> \<not> has_command s \<and> data s = 0 \<and> is_step_in s \<and> track s \<noteq> 0
       | TestHead \<Rightarrow> \<not> has_command s \<and> data s = 0 \<and> is_step_in s
       | StepDelay \<Rightarrow> \<not> has_command s \<and> data s = 0 \<and> 0 \<le> step_delay_count s \<and>
                        step_delay_count s \<le> uint (command s AND 3)
       | TestVerify \<Rightarrow> \<not> has_command s \<and> track s = 0 \<and> data s = 0
       | _ \<Rightarrow> False))"


subsection \<open>Reports of unhandled states\<close>

text \<open>
  \<open>log_step s s'\<close>: from \<open>s\<close> to \<open>s'\<close> the report list is unchanged, or it has grown by one
  entry and \<open>has_hit_error\<close> has gone from false to true; once the flag is set both stay.
\<close>

definition log_step :: "'d WD1770 \<Rightarrow> 'd WD1770 \<Rightarrow> bool" where
  "log_step s s' =
     ((has_hit_error s \<longrightarrow> has_hit_error s' \<and> printed s' = printed s) \<and>
      (printed s' = printed s \<or>
       (\<not> has_hit_error s \<and> has_hit_error s' \<and> length (printed s') = Suc (length (printed s)))))"

section \<open>The PowerPC instruction (InstructionSets/PowerPC/Instruction.hpp)\<close>

text \<open>
  \<open>enum class Operation: uint8_t\<close> has several hundred enumerators; an operation is held
  here as the value of its underlying type. \<open>Undefined\<close> is the first enumerator.
  \<open>BranchOption\<close> is likewise its underlying \<open>uint32_t\<close>.
\<close>

type_synonym Operation = "8 word"

definition Undefined :: Operation where
  "Undefined = 0"

type_synonym BranchOption = "32 word"

record Instruction =
  operation :: Operation
  is_supervisor :: bool
  opcode :: "32 word"

text \<open>The three constructors.\<close>

definition Instruction_default :: Instruction where
  "Instruction_default = \<lparr>operation = Undefined, is_supervisor = False, opcode = 0\<rparr>"

definition Instruction_opcode :: "32 word \<Rightarrow> Instruction" where
  "Instruction_opcode w = \<lparr>operation = Undefined, is_supervisor = False, opcode = w\<rparr>"

definition Instruction_decoded :: "Operation \<Rightarrow> 32 word \<Rightarrow> bool \<Rightarrow> Instruction" where
  "Instruction_decoded op w super = \<lparr>operation = op, is_supervisor = super, opcode = w\<rparr>"

text \<open>
  The field accessors. A \<open>uint16_t\<close> or \<open>int16_t\<close> result is a \<open>16 word\<close>, a \<open>uint32_t\<close>
  or \<open>int32_t\<close> result a \<open>32 word\<close>; \<open>sint\<close> reads the signed ones. The accessors \<open>d\<close>
  and \<open>l\<close> of the source are \<open>d_field\<close> and \<open>l_field\<close> here.
\<close>

definition uimm :: "Instruction \<Rightarrow> 16 word" where
  "uimm i = ucast (opcode i AND 0xffff)"

definition simm :: "Instruction \<Rightarrow> 16 word" where
  "simm i = ucast (opcode i AND 0xffff)"

definition d_field :: "Instruction \<Rightarrow> 16 word" where
  "d_field i = ucast (opcode i AND 0xffff)"

definition ds :: "Instruction \<Rightarrow> 16 word" where
  "ds i = ucast (opcode i AND 0xfffc)"

definition imm :: "Instruction \<Rightarrow> 32 word" where
  "imm i = drop_bit 12 (opcode i) AND 0xf"

definition to :: "Instruction \<Rightarrow> 32 word" where
  "to i = drop_bit 21 (opcode i) AND 0x1f"

definition rA :: "Instruction \<Rightarrow> 32 word" where
  "rA i = drop_bit 16 (opcode i) AND 0x1f"

definition rB :: "Instruction \<Rightarrow> 32 word" where
  "rB i = drop_bit 11 (opcode i) AND 0x1f"

definition rD :: "Instruction \<Rightarrow> 32 word" where
  "rD i = drop_bit 21 (opcode i) AND 0x1f"

definition rS :: "Instruction \<Rightarrow> 32 word" where
  "rS i = drop_bit 21 (opcode i) AND 0x1f"

definition frA :: "Instruction \<Rightarrow> 32 word" where
  "frA i = drop_bit 16 (opcode i) AND 0x1f"

definition frB :: "Instruction \<Rightarrow> 32 word" where
  "frB i = drop_bit 11 (opcode i) AND 0x1f"

definition frC :: "Instruction \<Rightarrow> 32 word" where
  "frC i = drop_bit 6 (opcode i) AND 0x1f"

definition frS :: "Instruction \<Rightarrow> 32 word" where
  "frS i = drop_bit 21 (opcode i) AND 0x1f"

definition frD :: "Instruction \<Rightarrow> 32 word" where
  "frD i = drop_bit 21 (opcode i) AND 0x1f"

definition bo :: "Instruction \<Rightarrow> 32 word" where
  "bo i = drop_bit 21 (opcode i) AND 0x1f"

definition branch_options :: "Instruction \<Rightarrow> BranchOption" where
  "branch_options i = drop_bit 22 (opcode i) AND 0xf"

definition branch_prediction_hint :: "Instruction \<Rightarrow> 32 word" where
  "branch_prediction_hint i = opcode i AND 0x200000"

definition bi :: "Instruction \<Rightarrow> 32 word" where
  "bi i = drop_bit 16 (opcode i) AND 0x1f"

definition bd :: "Instruction \<Rightarrow> 16 word" where
  "bd i = ucast (opcode i AND 0xfffc)"

definition mb :: "Instruction \<Rightarrow> 32 word" where
  "mb i = drop_bit 6 (opcode i) AND 0x1f"

definition me :: "Instruction \<Rightarrow> 32 word" where
  "me i = drop_bit 1 (opcode i) AND 0x1f"

definition crbA :: "Instruction \<Rightarrow> 32 word" where
  "crbA i = drop_bit 16 (opcode i) AND 0x1f"

definition crbB :: "Instruction \<Rightarrow> 32 word" where
  "crbB i = drop_bit 11 (opcode i) AND 0x1f"

definition crbD :: "Instruction \<Rightarrow> 32 word" where
  "crbD i = drop_bit 21 (opcode i) AND 0x1f"

definition crfD :: "Instruction \<Rightarrow> 32 word" where
  "crfD i = drop_bit 23 (opcode i) AND 0x07"

definition crfS :: "Instruction \<Rightarrow> 32 word" where
  "crfS i = drop_bit 18 (opcode i) AND 0x07"

definition crm :: "Instruction \<Rightarrow> 32 word" where
  "crm i = drop_bit 12 (opcode i) AND 0xff"

definition fm :: "Instruction \<Rightarrow> 32 word" where
  "fm i = drop_bit 17 (opcode i) AND 0xff"

definition nb :: "Instruction \<Rightarrow> 32 word" where
  "nb i = drop_bit 11 (opcode i) AND 0x1f"

definition sh :: "Instruction \<Rightarrow> 32 word" where
  "sh i = drop_bit 11 (opcode i) AND 0x1f"

definition sr :: "Instruction \<Rightarrow> 32 word" where
  "sr i = drop_bit 16 (opcode i) AND 0xf"

text \<open>\<open>li\<close> looks the sign extension up in a table of two entries.\<close>

definition extensions :: "32 word list" where
  "extensions = [0x00000000, 0xfc000000]"

definition li :: "Instruction \<Rightarrow> 32 word" where
  "li i =
     (let v = (opcode i AND 0x03fffffc) OR extensions ! unat (drop_bit 25 (opcode i) AND 1)
      in v)"

definition aa :: "Instruction \<Rightarrow> 32 word" where
  "aa i = opcode i AND 0x02"

definition lk :: "Instruction \<Rightarrow> 32 word" where
  "lk i = opcode i AND 0x01"

definition rc :: "Instruction \<Rightarrow> 32 word" where
  "rc i = opcode i AND 0x01"

definition l_field :: "Instruction \<Rightarrow> 32 word" where
  "l_field i = opcode i AND 0x200000"

definition oe :: "Instruction \<Rightarrow> 32 word" where
  "oe i = opcode i AND 0x400"

section \<open>The Amiga (Machines/Amiga/Amiga.cpp)\<close>

text \<open>
  Of the collaborators of \<open>ConcreteMachine\<close> only the header of the chipset is among the
  sources at hand. The others are parameters of the model: the constants of
  \<open>CPU::MC68000::Microcycle\<close> in the record \<open>Operations\<close>, and in the record \<open>Parts\<close> the
  member functions of the microcycle, of the chipset and its two CIAs, of \<open>MemoryMap\<close> (a
  type \<open>'mem\<close>), of \<open>ROM::Request\<close> and of \<open>Memory::PackBigEndian16\<close>. The chipset is
  constructed on a reference to the memory, so whatever it does is a function of chipset and
  memory together. Log output is left out.
\<close>

record Operations =
  NewAddress :: "32 word"
  SameAddress :: "32 word"
  Reset :: "32 word"
  InterruptAcknowledge :: "32 word"
  SelectByte :: "32 word"
  SelectWord :: "32 word"
  Read :: "32 word"

text \<open>
  A microcycle: the operation bits, the address and the value its two pointers point to, and
  its length in half cycles. The fields \<open>operation\<close>, \<open>value\<close> and \<open>length\<close> of the source are
  \<open>cycle_operation\<close>, \<open>val\<close> and \<open>cycle_length\<close> here, and \<open>chipset_.insert\<close> is
  \<open>chipset_insert\<close>: the plain names are taken.
\<close>

record Microcycle =
  cycle_operation :: "32 word"
  address :: "32 word"
  val :: "16 word"
  cycle_length :: int

datatype Name = AmigaA500Kickstart13 | OtherROM nat

type_synonym Map = "Name \<rightharpoonup> 8 word list"

record ('c, 'mem, 'media) Parts =
  run_until_cpu_slot :: "'c \<times> 'mem \<Rightarrow> ('c \<times> 'mem) \<times> int"
  run_for :: "int \<Rightarrow> 'c \<times> 'mem \<Rightarrow> 'c \<times> 'mem"
  get_interrupt_level :: "'c \<Rightarrow> int"
  perform :: "Microcycle \<Rightarrow> 'c \<times> 'mem \<Rightarrow> Microcycle \<times> ('c \<times> 'mem)"
  cia_a_read :: "32 word \<Rightarrow> 'c \<times> 'mem \<Rightarrow> 8 word \<times> ('c \<times> 'mem)"
  cia_b_read :: "32 word \<Rightarrow> 'c \<times> 'mem \<Rightarrow> 8 word \<times> ('c \<times> 'mem)"
  cia_a_write :: "32 word \<Rightarrow> 8 word \<Rightarrow> 'c \<times> 'mem \<Rightarrow> 'c \<times> 'mem"
  cia_b_write :: "32 word \<Rightarrow> 8 word \<Rightarrow> 'c \<times> 'mem \<Rightarrow> 'c \<times> 'mem"
  chipset_insert :: "'media \<Rightarrow> 'c \<times> 'mem \<Rightarrow> bool \<times> ('c \<times> 'mem)"
  memory_reset :: "'mem \<Rightarrow> 'mem"
  read_write_mask :: "'mem \<Rightarrow> 32 word \<Rightarrow> 32 word"
  apply_region :: "Microcycle \<Rightarrow> 32 word \<Rightarrow> 'mem \<Rightarrow> Microcycle \<times> 'mem"
  host_endian_byte_address :: "Microcycle \<Rightarrow> 32 word"
  set_value16 :: "16 word \<Rightarrow> Microcycle \<Rightarrow> Microcycle"
  value8_low :: "Microcycle \<Rightarrow> 8 word"
  value8_high :: "Microcycle \<Rightarrow> 8 word"
  validate :: "Name \<Rightarrow> Map \<Rightarrow> bool \<times> Map"
  PackBigEndian16_kickstart :: "8 word list \<Rightarrow> 'mem \<Rightarrow> 'mem"

text \<open>
  \<open>read_write_mask E mem r\<close> is \<open>memory_.regions[r].read_write_mask\<close>, and
  \<open>apply_region E cycle a mem\<close> is \<open>cycle.apply\<close> on the contents and mask of the region
  \<open>a >> 18\<close> at address \<open>a\<close>. \<open>PackBigEndian16_kickstart E bytes mem\<close> is
  \<open>Memory::PackBigEndian16(bytes, memory_.kickstart.data())\<close>.
\<close>

record ('c, 'mem) ConcreteMachine =
  chipset :: 'c
  memory :: 'mem
  is_peripheral_address :: bool
  interrupt_level :: int
  clock_rate :: int

definition PALClockRate :: int where
  "PALClockRate = 7093790"

definition NTSCClockRate :: int where
  "NTSCClockRate = 7159090"

datatype Error = MissingROMs

text \<open>
  A constructor either throws, or dereferences the end iterator of the map (\<open>roms.find\<close>
  of a name the map does not hold), or gives the machine.
\<close>

datatype 'a construction = Threw Error | Dereferenced_end | Constructed 'a

definition insert_media ::
  "('c, 'mem, 'media) Parts \<Rightarrow> 'media \<Rightarrow> ('c, 'mem) ConcreteMachine \<Rightarrow>
     bool \<times> ('c, 'mem) ConcreteMachine" where
  "insert_media E disks m =
     (let (r, (c, mem)) = chipset_insert E disks (chipset m, memory m)
      in (r, m\<lparr>chipset := c, memory := mem\<rparr>))"

text \<open>
  The body of the constructor. \<open>m0\<close> is the machine as the member initialisers leave it
  (processor, memory map and chipset constructed), \<open>rom_fetcher\<close> is the argument of that
  name and \<open>disks\<close> the media of the target.
\<close>

definition ConcreteMachine_new ::
  "('c, 'mem, 'media) Parts \<Rightarrow> 'media \<Rightarrow> (Name \<Rightarrow> Map) \<Rightarrow> ('c, 'mem) ConcreteMachine \<Rightarrow>
     ('c, 'mem) ConcreteMachine construction" where
  "ConcreteMachine_new E disks rom_fetcher m0 =
     (let rom_name = AmigaA500Kickstart13;
          request = rom_name;
          roms = rom_fetcher request;
          (valid, roms1) = validate E request roms
      in if \<not> valid then Threw MissingROMs
         else (case roms1 rom_name of
                 None \<Rightarrow> Dereferenced_end
               | Some bytes \<Rightarrow>
                   (let m1 = m0\<lparr>memory := PackBigEndian16_kickstart E bytes (memory m0)\<rparr>;
                        m2 = m1\<lparr>clock_rate := PALClockRate\<rparr>
                    in Constructed (snd (insert_media E disks m2)))))"

text \<open>
  \<open>perform_bus_operation\<close>, in two parts. First the chipset is given the time of the cycle
  (with the wait for a CPU slot if the cycle starts an access to chip RAM), the interrupt level
  is passed on, and a reset is applied. The result is the access delay and the machine.
\<close>

definition advance_for_cycle ::
  "Operations \<Rightarrow> ('c, 'mem, 'media) Parts \<Rightarrow> Microcycle \<Rightarrow> ('c, 'mem) ConcreteMachine \<Rightarrow>
     int \<times> ('c, 'mem) ConcreteMachine" where
  "advance_for_cycle Ops E cycle m =
     (let (access_delay, cm1) =
            (if cycle_operation cycle AND NewAddress Ops \<noteq> 0 \<and> address cycle < 0x200000
             then (let (cm, duration) = run_until_cpu_slot E (chipset m, memory m)
                   in (duration, cm))
             else (0, (chipset m, memory m)));
          total_length = cycle_length cycle + access_delay;
          (c2, mem2) = run_for E total_length cm1;
          m3 = m\<lparr>chipset := c2, memory := mem2, interrupt_level := get_interrupt_level E c2\<rparr>;
          m4 = (if cycle_operation cycle AND Reset Ops \<noteq> 0
                then m3\<lparr>memory := memory_reset E (memory m3)\<rparr> else m3)
      in (access_delay, m4))"

text \<open>Then the access itself, on the machine \<open>m\<close> that \<open>advance_for_cycle\<close> left.\<close>

definition access ::
  "Operations \<Rightarrow> ('c, 'mem, 'media) Parts \<Rightarrow> Microcycle \<Rightarrow> ('c, 'mem) ConcreteMachine \<Rightarrow>
     Microcycle \<times> ('c, 'mem) ConcreteMachine" where
  "access Ops E cycle m =
     (if cycle_operation cycle AND InterruptAcknowledge Ops \<noteq> 0
      then (cycle, m\<lparr>is_peripheral_address := True\<rparr>)
      else if cycle_operation cycle AND (NewAddress Ops OR SameAddress Ops) = 0
      then (cycle, m)
      else
        (let a = host_endian_byte_address E cycle;
             m1 = m\<lparr>is_peripheral_address := (a AND 0xe00000 = 0xa00000)\<rparr>
         in if read_write_mask E (memory m1) (drop_bit 18 a) = 0
            then
              (if cycle_operation cycle AND (SelectByte Ops OR SelectWord Ops) \<noteq> 0
               then
                 (if a AND 0xe00000 = 0xa00000
                  then
                    (let reg = drop_bit 8 a
                     in if cycle_operation cycle AND Read Ops \<noteq> 0
                        then
                          (let result = 0xffff;
                               (result1, cm1) =
                                 (if a AND 0x1000 = 0
                                  then (let (v, cm) = cia_a_read E reg (chipset m1, memory m1)
                                        in (result AND (0xff00 OR ucast v), cm))
                                  else (result, (chipset m1, memory m1)));
                               (result2, cm2) =
                                 (if a AND 0x2000 = 0
                                  then (let (v, cm) = cia_b_read E reg cm1
                                        in (result1 AND (0x00ff OR push_bit 8 (ucast v)), cm))
                                  else (result1, cm1))
                           in (set_value16 E result2 cycle,
                               m1\<lparr>chipset := fst cm2, memory := snd cm2\<rparr>))
                        else
                          (let cm1 = (if a AND 0x1000 = 0
                                      then cia_a_write E reg (value8_low E cycle)
                                             (chipset m1, memory m1)
                                      else (chipset m1, memory m1));
                               cm2 = (if a AND 0x2000 = 0
                                      then cia_b_write E reg (value8_high E cycle) cm1
                                      else cm1)
                           in (cycle, m1\<lparr>chipset := fst cm2, memory := snd cm2\<rparr>)))
                  else if 0xdff000 \<le> a \<and> a \<le> 0xdff1be
                  then
                    (let (cycle1, (c, mem)) = perform E cycle (chipset m1, memory m1)
                     in (cycle1, m1\<lparr>chipset := c, memory := mem\<rparr>))
                  else
                    (if cycle_operation cycle AND Read Ops \<noteq> 0
                     then (set_value16 E 0xffff cycle, m1)
                     else (cycle, m1)))
               else (cycle, m1))
            else
              (let (cycle1, mem) = apply_region E cycle a (memory m1)
               in (cycle1, m1\<lparr>memory := mem\<rparr>))))"

text \<open>
  The result of \<open>perform_bus_operation\<close>: the delay returned, the microcycle (whose value the
  function may set through the pointer) and the machine.
\<close>

definition perform_bus_operation ::
  "Operations \<Rightarrow> ('c, 'mem, 'media) Parts \<Rightarrow> Microcycle \<Rightarrow> ('c, 'mem) ConcreteMachine \<Rightarrow>
     int \<times> Microcycle \<times> ('c, 'mem) ConcreteMachine" where
  "perform_bus_operation Ops E cycle m =
     (let (access_delay, m1) = advance_for_cycle Ops E cycle m
      in (access_delay, access Ops E cycle m1))"

subsection \<open>Concrete collaborators for evaluation\<close>

text \<open>
  A layout of the operation bits with one bit for each constant, collaborators that do as
  little as their types allow (a chipset without state, no mapped region, ROMs valid when
  present, the memory being the packed kickstart alone), and three microcycles at the unmapped
  address \<open>0x200000\<close>: a word read, a word write, and a word read that is also an interrupt
  acknowledge.
\<close>

fun pack16 :: "8 word list \<Rightarrow> 16 word list" where
  "pack16 (a # b # r) = (push_bit 8 (ucast a) OR ucast b) # pack16 r"
| "pack16 r = []"

definition test_operations :: Operations where
  "test_operations =
     \<lparr>NewAddress = 0x08, SameAddress = 0x10, Reset = 0x20, InterruptAcknowledge = 0x100,
      SelectByte = 0x01, SelectWord = 0x02, Read = 0x04\<rparr>"

definition test_parts :: "(unit, 16 word list, unit) Parts" where
  "test_parts =
     \<lparr>run_until_cpu_slot = (\<lambda>cm. (cm, 0)),
      run_for = (\<lambda>t cm. cm),
      get_interrupt_level = (\<lambda>c. 0),
      perform = (\<lambda>cycle cm. (cycle, cm)),
      cia_a_read = (\<lambda>reg cm. (0xff, cm)),
      cia_b_read = (\<lambda>reg cm. (0xff, cm)),
      cia_a_write = (\<lambda>reg v cm. cm),
      cia_b_write = (\<lambda>reg v cm. cm),
      chipset_insert = (\<lambda>disks cm. (True, cm)),
      memory_reset = (\<lambda>mem. mem),
      read_write_mask = (\<lambda>mem r. 0),
      apply_region = (\<lambda>cycle a mem. (cycle, mem)),
      host_endian_byte_address = (\<lambda>cycle. address cycle AND 0xffffff),
      set_value16 = (\<lambda>v cycle. cycle\<lparr>val := v\<rparr>),
      value8_low = (\<lambda>cycle. ucast (val cycle)),
      value8_high = (\<lambda>cycle. ucast (drop_bit 8 (val cycle))),
      validate = (\<lambda>n roms. (roms n \<noteq> None, roms)),
      PackBigEndian16_kickstart = (\<lambda>bytes mem. pack16 bytes)\<rparr>"

definition test_machine :: "(unit, 16 word list) ConcreteMachine" where
  "test_machine =
     \<lparr>chipset = (), memory = [], is_peripheral_address = False, interrupt_level = 0,
      clock_rate = 0\<rparr>"

definition acknowledge_cycle :: Microcycle where
  "acknowledge_cycle =
     \<lparr>cycle_operation = 0x10e, address = 0x200000, val = 0x1234, cycle_length = 4\<rparr>"

definition read_cycle :: Microcycle where
  "read_cycle = \<lparr>cycle_operation = 0x0e, address = 0x200000, val = 0x1234, cycle_length = 4\<rparr>"

definition write_cycle :: Microcycle where
  "write_cycle = \<lparr>cycle_operation = 0x0a, address = 0x200000, val = 0x1234, cycle_length = 4\<rparr>"

section \<open>Index pulses\<close>

lemma index_hole_count_funpow:
  "index_hole_count ((process_index_hole ^^ k) s) = index_hole_count s + int k"
  by (induction k) (simp_all add: process_index_hole_def Let_def)

lemma next_state_funpow:
  "wait_six_index_pulses_next_state ((process_index_hole ^^ k) s) =
     wait_six_index_pulses_next_state s"
  by (induction k) (simp_all add: process_index_hole_def Let_def)

lemma state_funpow_waiting:
  "state s = WaitForSixIndexPulses \<Longrightarrow> index_hole_count s = 0 \<Longrightarrow> k < 6 \<Longrightarrow>
     state ((process_index_hole ^^ k) s) = WaitForSixIndexPulses"
  by (induction k) (simp_all add: process_index_hole_def Let_def index_hole_count_funpow)

text \<open>
  Claim C1. In \<open>WaitForSixIndexPulses\<close> with the counter at zero, six calls of
  \<open>process_index_hole\<close> move the controller to the recorded next state and any smaller
  number of calls leaves it waiting. Every call adds one to the counter, in any state;
  outside \<open>WaitForSixIndexPulses\<close> a call changes no state, and the case of the switch for
  \<open>WaitForSixIndexPulses\<close> sets the motor flag and touches neither state nor counter.
\<close>

theorem six_index_pulses:
  "(state s = WaitForSixIndexPulses \<and> index_hole_count s = 0 \<longrightarrow>
      state ((process_index_hole ^^ 6) s) = wait_six_index_pulses_next_state s \<and>
      (\<forall>k<6. state ((process_index_hole ^^ k) s) = WaitForSixIndexPulses)) \<and>
   index_hole_count (process_index_hole s) = index_hole_count s + 1 \<and>
   (state s \<noteq> WaitForSixIndexPulses \<longrightarrow> state (process_index_hole s) = state s) \<and>
   (state s = WaitForSixIndexPulses \<longrightarrow>
      switch_state F D s = (s\<lparr>status := status s OR MotorOn F\<rparr>, True))"
proof -
  have six: "state ((process_index_hole ^^ 6) s) = wait_six_index_pulses_next_state s"
    if w: "state s = WaitForSixIndexPulses" and z: "index_hole_count s = 0"
  proof -
    have five: "state ((process_index_hole ^^ 5) s) = WaitForSixIndexPulses"
      using w z by (rule state_funpow_waiting) simp
    have "(process_index_hole ^^ 6) s = process_index_hole ((process_index_hole ^^ 5) s)"
      by (simp add: numeral_eq_Suc)
    then show ?thesis
      using five z
      by (simp add: process_index_hole_def [of "(process_index_hole ^^ 5) s"] Let_def
          index_hole_count_funpow next_state_funpow)
  qed
  have inc: "index_hole_count (process_index_hole s) = index_hole_count s + 1"
    by (simp add: process_index_hole_def Let_def)
  have inert: "state (process_index_hole s) = state s" if "state s \<noteq> WaitForSixIndexPulses"
    using that by (simp add: process_index_hole_def Let_def)
  have tick: "switch_state F D s = (s\<lparr>status := status s OR MotorOn F\<rparr>, True)"
    if "state s = WaitForSixIndexPulses"
    using that by (simp add: switch_state_def case_WaitForSixIndexPulses_def)
  show ?thesis
    using six inc inert tick state_funpow_waiting by blast
qed

theorem six_index_pulses_witness:
  "state ((process_index_hole ^^ 6)
     (blank\<lparr>state := WaitForSixIndexPulses,
            wait_six_index_pulses_next_state := BeginType1PostSpin\<rparr>)) = BeginType1PostSpin \<and>
   state ((process_index_hole ^^ 5)
     (blank\<lparr>state := WaitForSixIndexPulses,
            wait_six_index_pulses_next_state := BeginType1PostSpin\<rparr>)) = WaitForSixIndexPulses \<and>
   state (process_index_hole (blank\<lparr>state := TestHead, index_hole_count := 5\<rparr>)) = TestHead \<and>
   index_hole_count (process_index_hole (blank\<lparr>state := TestHead, index_hole_count := 5\<rparr>)) = 6"
  using six_index_pulses
          [of "blank\<lparr>state := WaitForSixIndexPulses,
                     wait_six_index_pulses_next_state := BeginType1PostSpin\<rparr>"]
        six_index_pulses [of "blank\<lparr>state := TestHead, index_hole_count := 5\<rparr>"]
  by (simp add: blank_def)

section \<open>Restore\<close>


lemma run_loop_stop: "\<not> 8 < cycles s \<Longrightarrow> run_loop F D s = s"
  by (simp add: run_loop.simps)

lemma run_loop_continue:
  "8 < cycles s \<Longrightarrow> snd (loop_body F D s) \<Longrightarrow> run_loop F D s = run_loop F D (fst (loop_body F D s))"
  by (subst run_loop.simps) (simp add: Let_def)

lemma run_loop_return:
  "8 < cycles s \<Longrightarrow> \<not> snd (loop_body F D s) \<Longrightarrow> run_loop F D s = fst (loop_body F D s)"
  by (subst run_loop.simps) (simp add: Let_def)

lemma funpow_outside_wait:
  "state s \<noteq> WaitForSixIndexPulses \<Longrightarrow>
     (process_index_hole ^^ k) s = s\<lparr>index_hole_count := index_hole_count s + int k\<rparr>"
  by (induction k) (simp_all add: process_index_hole_def Let_def)

lemma before_switch_outside_wait:
  "state s \<noteq> WaitForSixIndexPulses \<Longrightarrow>
     \<exists>d k. before_switch F D s = s\<lparr>drive := d, cycles := cycles s - 8, index_hole_count := k\<rparr>"
proof (cases "status s AND MotorOn F \<noteq> 0")
  case False
  then have "before_switch F D s = s\<lparr>drive := drive s, cycles := cycles s - 8, index_hole_count := index_hole_count s\<rparr>"
    by (simp add: before_switch_def Let_def)
  then show ?thesis by blast
next
  case True
  assume w: "state s \<noteq> WaitForSixIndexPulses"
  obtain d h where dh: "drive_run_for_one_cycle D (drive s) = (d, h)" by fastforce
  have "before_switch F D s = s\<lparr>drive := d, cycles := cycles s - 8, index_hole_count := index_hole_count s + int h\<rparr>"
    using True w dh
    by (simp add: before_switch_def Let_def Drive_run_for_cycles_1_def funpow_outside_wait)
  then show ?thesis by blast
qed

lemma word8_less_4: "(c :: 8 word) < 4 \<Longrightarrow> c = 0 \<or> c = 1 \<or> c = 2 \<or> c = 3"
proof -
  assume "c < 4"
  then have "unat c < 4" by (simp add: word_less_nat_alt)
  then have "unat c = 0 \<or> unat c = 1 \<or> unat c = 2 \<or> unat c = 3" by arith
  moreover have "c = word_of_nat (unat c)" by simp
  ultimately show ?thesis by (elim disjE) simp_all
qed


lemma restore_inv_not_waiting_pulses: "restore_inv F s \<Longrightarrow> state s \<noteq> WaitForSixIndexPulses"
  by (auto simp: restore_inv_def)

lemma restore_before_switch:
  assumes "restore_inv F s"
  shows "restore_inv F (before_switch F D s) \<and>
         restore_remaining (before_switch F D s) = restore_remaining s"
proof -
  obtain d k where
    "before_switch F D s = s\<lparr>drive := d, cycles := cycles s - 8, index_hole_count := k\<rparr>"
    using before_switch_outside_wait [OF restore_inv_not_waiting_pulses [OF assms]] by blast
  then show ?thesis
    using assms by (simp add: restore_inv_def restore_remaining_def Let_def cong: State.case_cong)
qed

lemma restore_command_bits:
  assumes "(c :: 8 word) < 4"
  shows "c AND 0x80 = 0" "c AND 0x08 = 0" "c AND 0x04 = 0" "drop_bit 4 c = 0" "drop_bit 5 c = 0"
  using word8_less_4 [OF assms] by auto

lemma restore_switch:
  assumes "restore_inv F s"
  shows "snd (switch_state F D s) \<and> restore_inv F (fst (switch_state F D s)) \<and>
         restore_remaining (fst (switch_state F D s)) = restore_remaining s - 1"
proof -
  from assms have c4: "command s < 4" by (simp add: restore_inv_def)
  note c = restore_command_bits [OF c4]
  show ?thesis
  proof (cases "state s")
    case Waiting
    then show ?thesis using assms c
      by (auto simp: restore_inv_def restore_remaining_def switch_state_def case_Waiting_def)
  next
    case BeginType1
    then show ?thesis using assms c
      by (auto simp: restore_inv_def restore_remaining_def switch_state_def case_BeginType1_def
          set_interrupt_request_def Let_def)
  next
    case BeginType1PostSpin
    then show ?thesis using assms c
      by (auto simp: restore_inv_def restore_remaining_def switch_state_def
          case_BeginType1PostSpin_def Let_def)
  next
    case TestTrack
    then show ?thesis using assms c
      by (auto simp: restore_inv_def restore_remaining_def switch_state_def
          case_TestTrack_def Let_def word_greater_zero_iff)
  next
    case TestDirection
    with assms have t0: "track s \<noteq> 0" by (simp add: restore_inv_def)
    then have "unat (track s) \<noteq> 0" by (simp add: unat_eq_0)
    then obtain t where t: "unat (track s) = Suc t" by (cases "unat (track s)") auto
    have t': "unat (track s + (- 1)) = t"
      using t0 t by (simp add: unat_minus_one)
    show ?thesis using assms c TestDirection t t'
      by (simp add: restore_inv_def restore_remaining_def switch_state_def
          case_TestDirection_def Let_def)
  next
    case TestHead
    then show ?thesis using assms c
      by (auto simp: restore_inv_def restore_remaining_def switch_state_def
          case_TestHead_def Let_def)
  next
    case StepDelay
    define r where "r = unat (command s AND 3)"
    have u: "uint (command s AND 3) = int r"
      unfolding r_def by (rule uint_nat)
    from assms StepDelay have b: "0 \<le> step_delay_count s" "step_delay_count s \<le> int r"
      by (simp_all add: restore_inv_def u [symmetric])
    define j where "j = nat (step_delay_count s)"
    have j: "step_delay_count s = int j" "j \<le> r"
      using b by (simp_all add: j_def)
    show ?thesis using assms c StepDelay u j
      by (auto simp: restore_inv_def restore_remaining_def switch_state_def
          case_StepDelay_def Let_def r_def [symmetric])
  next
    case TestVerify
    then show ?thesis using assms c
      by (auto simp: restore_inv_def restore_remaining_def switch_state_def
          case_TestVerify_def set_interrupt_request_def Let_def and.assoc)
  qed (use assms in \<open>simp_all add: restore_inv_def\<close>)
qed


lemma restore_loop_body:
  assumes "restore_inv F s"
  shows "snd (loop_body F D s) \<and> restore_inv F (fst (loop_body F D s)) \<and>
         restore_remaining (fst (loop_body F D s)) = restore_remaining s - 1"
  using restore_before_switch [OF assms, of D]
        restore_switch [of F "before_switch F D s" D]
  by (simp add: loop_body_def)

lemma restore_run_loop:
  "restore_inv F s \<Longrightarrow>
     restore_inv F (run_loop F D s) \<and> cycles (run_loop F D s) \<le> 8 \<and>
     (\<exists>k. restore_remaining (run_loop F D s) = restore_remaining s - k \<and>
          unat (cycles (run_loop F D s)) + 8 * k = unat (cycles s))"
proof (induction F D s rule: run_loop.induct)
  case (1 F D s)
  show ?case
  proof (cases "8 < cycles s")
    case False
    then have "run_loop F D s = s" by (rule run_loop_stop)
    moreover have "restore_remaining s = restore_remaining s - 0 \<and>
        unat (cycles s) + 8 * 0 = unat (cycles s)" by simp
    ultimately show ?thesis using False "1.prems" by (metis not_less)
  next
    case True
    note b = restore_loop_body [OF "1.prems", of D]
    from b have cont: "snd (loop_body F D s)" by simp
    have eq: "run_loop F D s = run_loop F D (fst (loop_body F D s))"
      using True cont by (rule run_loop_continue)
    from "1.IH" [OF True refl cont] b
    obtain k where k: "restore_inv F (run_loop F D (fst (loop_body F D s)))"
        "cycles (run_loop F D (fst (loop_body F D s))) \<le> 8"
        "restore_remaining (run_loop F D (fst (loop_body F D s))) =
           restore_remaining (fst (loop_body F D s)) - k"
        "unat (cycles (run_loop F D (fst (loop_body F D s)))) + 8 * k =
           unat (cycles (fst (loop_body F D s)))"
      by blast
    have c8: "unat (cycles s - 8) + 8 = unat (cycles s)"
      using True by (simp add: unat_sub word_le_nat_alt word_less_nat_alt)
    have "restore_remaining (run_loop F D s) = restore_remaining s - Suc k"
      using k(3) b by (simp add: eq)
    moreover have "unat (cycles (run_loop F D s)) + 8 * Suc k = unat (cycles s)"
      using k(4) c8 by (simp add: eq)
    ultimately show ?thesis using k(1,2) eq by metis
  qed
qed


lemma restore_inv_cycles [simp]: "restore_inv F (s\<lparr>cycles := c\<rparr>) = restore_inv F s"
  by (simp add: restore_inv_def cong: State.case_cong)

lemma restore_remaining_cycles [simp]:
  "restore_remaining (s\<lparr>cycles := c\<rparr>) = restore_remaining s"
  by (simp add: restore_remaining_def cong: State.case_cong)

lemma restore_run_for_cycles:
  assumes "restore_inv F s" and "unat (cycles s) + unat n < 2 ^ 32"
  shows "restore_inv F (run_for_cycles F D n s) \<and> cycles (run_for_cycles F D n s) \<le> 8 \<and>
     (\<exists>k. restore_remaining (run_for_cycles F D n s) = restore_remaining s - k \<and>
          unat (cycles (run_for_cycles F D n s)) + 8 * k = unat (cycles s) + unat n)"
proof -
  have "unat (cycles s + n) = unat (cycles s) + unat n"
    using assms(2) by (simp add: unat_add_lem [THEN iffD1])
  then show ?thesis
    using restore_run_loop [of F "s\<lparr>cycles := cycles s + n\<rparr>" D] assms(1)
    by (simp add: run_for_cycles_def)
qed

lemma restore_calls:
  "restore_inv F s \<Longrightarrow> unat (cycles s) + sum_list (map unat ns) < 2 ^ 32 \<Longrightarrow>
     restore_inv F (fold (run_for_cycles F D) ns s) \<and>
     (ns \<noteq> [] \<longrightarrow> cycles (fold (run_for_cycles F D) ns s) \<le> 8) \<and>
     (\<exists>k. restore_remaining (fold (run_for_cycles F D) ns s) = restore_remaining s - k \<and>
          unat (cycles (fold (run_for_cycles F D) ns s)) + 8 * k =
            unat (cycles s) + sum_list (map unat ns))"
proof (induction ns arbitrary: s)
  case Nil
  have "restore_remaining s = restore_remaining s - 0 \<and>
      unat (cycles s) + 8 * 0 = unat (cycles s)" by simp
  then show ?case using Nil.prems(1) by (simp del: diff_zero)
next
  case (Cons n ns)
  let ?s1 = "run_for_cycles F D n s"
  have fit: "unat (cycles s) + unat n < 2 ^ 32"
    using Cons.prems(2) by simp
  from restore_run_for_cycles [OF Cons.prems(1) fit, of D]
  obtain k where k: "restore_inv F ?s1" "cycles ?s1 \<le> 8"
      "restore_remaining ?s1 = restore_remaining s - k"
      "unat (cycles ?s1) + 8 * k = unat (cycles s) + unat n"
    by blast
  have fit1: "unat (cycles ?s1) + sum_list (map unat ns) < 2 ^ 32"
    using k(4) Cons.prems(2) by simp
  from Cons.IH [OF k(1) fit1]
  obtain k' where k': "restore_inv F (fold (run_for_cycles F D) ns ?s1)"
      "ns \<noteq> [] \<longrightarrow> cycles (fold (run_for_cycles F D) ns ?s1) \<le> 8"
      "restore_remaining (fold (run_for_cycles F D) ns ?s1) = restore_remaining ?s1 - k'"
      "unat (cycles (fold (run_for_cycles F D) ns ?s1)) + 8 * k' =
         unat (cycles ?s1) + sum_list (map unat ns)"
    by blast
  have le: "cycles (fold (run_for_cycles F D) (n # ns) s) \<le> 8"
    using k(2) k'(2) by (cases ns) simp_all
  have "restore_remaining (fold (run_for_cycles F D) (n # ns) s) = restore_remaining s - (k + k')"
    using k(3) k'(3) by simp
  moreover have "unat (cycles (fold (run_for_cycles F D) (n # ns) s)) + 8 * (k + k') =
      unat (cycles s) + sum_list (map unat (n # ns))"
    using k(4) k'(4) by simp
  ultimately show ?case using k'(1) le by (metis fold_simps(2))
qed

lemma restore_done:
  assumes "restore_inv F s" and "restore_remaining s = 0"
  shows "state s = Waiting \<and> \<not> has_command s \<and> interrupt_request s \<and>
         status s AND Busy F = 0 \<and> track s = 0 \<and> data s = 0"
proof (cases "state s")
  case StepDelay
  define r where "r = unat (command s AND 3)"
  have "uint (command s AND 3) = int r"
    unfolding r_def by (rule uint_nat)
  with assms StepDelay have "step_delay_count s \<le> int r" "3 + r \<le> nat (step_delay_count s)"
    by (simp_all add: restore_inv_def restore_remaining_def Let_def r_def [symmetric])
  then have False by arith
  then show ?thesis ..
qed (use assms in \<open>auto simp: restore_inv_def restore_remaining_def Let_def\<close>)

lemma restore_completes:
  assumes inv: "restore_inv F s"
    and calls: "ns \<noteq> []"
    and fit: "unat (cycles s) + sum_list (map unat ns) < 2 ^ 32"
    and enough: "8 * restore_remaining s < unat (cycles s) + sum_list (map unat ns)"
  shows "state (fold (run_for_cycles F D) ns s) = Waiting \<and>
         \<not> has_command (fold (run_for_cycles F D) ns s) \<and>
         interrupt_request (fold (run_for_cycles F D) ns s) \<and>
         status (fold (run_for_cycles F D) ns s) AND Busy F = 0 \<and>
         track (fold (run_for_cycles F D) ns s) = 0 \<and>
         data (fold (run_for_cycles F D) ns s) = 0"
proof -
  let ?s' = "fold (run_for_cycles F D) ns s"
  from restore_calls [OF inv fit, of D] calls
  obtain k where k: "restore_inv F ?s'" "cycles ?s' \<le> 8"
      "restore_remaining ?s' = restore_remaining s - k"
      "unat (cycles ?s') + 8 * k = unat (cycles s) + sum_list (map unat ns)"
    by blast
  from k(2) have "unat (cycles ?s') \<le> 8" by (simp add: word_le_nat_alt)
  with k(4) enough have "restore_remaining s \<le> k" by arith
  with k(3) have "restore_remaining ?s' = 0" by simp
  with k(1) show ?thesis by (rule restore_done)
qed


lemma restore_start:
  assumes "state s = Waiting" and "c < 4"
  shows "restore_inv F (set_register 0 c s)"
    and "restore_remaining (set_register 0 c s) = restore_ticks c"
  using assms by (simp_all add: restore_inv_def restore_remaining_def set_register_def
      restore_ticks_def)

text \<open>
  Claim C2. From \<open>Waiting\<close>, whatever the track register holds (any nonzero value
  included), writing a restore command \<open>c\<close> (a byte below 4; \<open>0x00\<close> is one) to register 0
  and calling \<open>run_for_cycles\<close> any number of times ends in \<open>Waiting\<close> with the interrupt
  request raised, \<open>Busy\<close> cleared and the track register at 0, as soon as the cycles given
  exceed eight times \<open>restore_ticks c = 5 + 255 * (4 + (c AND 3))\<close> passes of the loop. The
  accumulator is an \<open>unsigned int\<close>: the cycles given are assumed not to wrap it.
\<close>

theorem restore_reaches_waiting:
  assumes "state s = Waiting"
    and "c < 4"
    and "ns \<noteq> []"
    and "unat (cycles s) + sum_list (map unat ns) < 2 ^ 32"
    and "8 * restore_ticks c < unat (cycles s) + sum_list (map unat ns)"
  shows "state (fold (run_for_cycles F D) ns (set_register 0 c s)) = Waiting \<and>
         interrupt_request (fold (run_for_cycles F D) ns (set_register 0 c s)) \<and>
         status (fold (run_for_cycles F D) ns (set_register 0 c s)) AND Busy F = 0 \<and>
         track (fold (run_for_cycles F D) ns (set_register 0 c s)) = 0"
proof -
  have cy: "cycles (set_register 0 c s) = cycles s"
    by (simp add: set_register_def)
  show ?thesis
    using restore_completes [of F "set_register 0 c s" ns D]
      restore_start(1) [OF assms(1,2), of F] restore_start(2) [OF assms(1,2)] assms(3-5)
    by (simp add: cy)
qed

theorem restore_reaches_waiting_witness:
  "state (fold (run_for_cycles datasheet_flags test_drive) [4000, 4201]
            (set_register 0 0x00 (blank\<lparr>track := 5\<rparr>))) = Waiting \<and>
   interrupt_request (fold (run_for_cycles datasheet_flags test_drive) [4000, 4201]
            (set_register 0 0x00 (blank\<lparr>track := 5\<rparr>))) \<and>
   status (fold (run_for_cycles datasheet_flags test_drive) [4000, 4201]
            (set_register 0 0x00 (blank\<lparr>track := 5\<rparr>))) AND Busy datasheet_flags = 0 \<and>
   track (fold (run_for_cycles datasheet_flags test_drive) [4000, 4201]
            (set_register 0 0x00 (blank\<lparr>track := 5\<rparr>))) = 0"
proof -
  have 1: "state (blank\<lparr>track := 5\<rparr>) = Waiting" by (simp add: blank_def)
  have 2: "(0x00 :: 8 word) < 4" by simp
  have 3: "[4000, 4201 :: 32 word] \<noteq> []" by simp
  have 4: "unat (cycles (blank\<lparr>track := 5\<rparr>)) + sum_list (map unat [4000, 4201 :: 32 word]) < 2 ^ 32"
    by (simp add: blank_def)
  have 5: "8 * restore_ticks 0x00 <
      unat (cycles (blank\<lparr>track := 5\<rparr>)) + sum_list (map unat [4000, 4201 :: 32 word])"
    by (simp add: blank_def restore_ticks_def)
  show ?thesis
    by (rule restore_reaches_waiting [OF 1 2 3 4 5])
qed





section \<open>Spin-up of Type 1 and Type 2 commands\<close>

lemma state_case_BeginType1:
  "state (case_BeginType1 F s) =
     (if command s AND 0x08 \<noteq> 0 then WaitForSixIndexPulses else BeginType1PostSpin)"
  by (simp add: case_BeginType1_def set_interrupt_request_def Let_def)

lemma state_case_BeginType2:
  "state (case_BeginType2 F s) =
     (if command s AND 0x08 = 0 then WaitForSixIndexPulses else TestPause)"
  by (simp add: case_BeginType2_def Let_def)

text \<open>
  Claim C3, evaluated on the code. A freshly constructed controller is given a command byte
  and two passes of the loop (17 cycles): \<open>Waiting\<close> dispatches, then \<open>BeginType1\<close> or
  \<open>BeginType2\<close> runs. With the Type 1 command \<open>0x00\<close> (bit 3 clear) the controller goes
  straight to \<open>BeginType1PostSpin\<close>, with \<open>0x08\<close> (bit 3 set) it waits for six index
  pulses. The Type 2 commands \<open>0x80\<close> and \<open>0x88\<close> do the opposite: the wait is entered
  with bit 3 clear.
\<close>

theorem BeginType1_spin_up_inverted:
  "state (run_for_cycles datasheet_flags test_drive 17
            (set_register 0 0x00 (WD1770_new blank))) = BeginType1PostSpin \<and>
   state (run_for_cycles datasheet_flags test_drive 17
            (set_register 0 0x08 (WD1770_new blank))) = WaitForSixIndexPulses \<and>
   state (run_for_cycles datasheet_flags test_drive 17
            (set_register 0 0x80 (WD1770_new blank))) = WaitForSixIndexPulses \<and>
   state (run_for_cycles datasheet_flags test_drive 17
            (set_register 0 0x88 (WD1770_new blank))) = TestPause"
  by (simp add: run_for_cycles_def run_loop.simps loop_body_def before_switch_def switch_state_def
      set_register_def WD1770_new_def blank_def datasheet_flags_def
      case_Waiting_def case_BeginType1_def case_BeginType2_def
      set_interrupt_request_def Let_def)


section \<open>Unhandled states\<close>

lemma funpow_index_hole_shape:
  "\<exists>st. (process_index_hole ^^ k) s = s\<lparr>state := st, index_hole_count := index_hole_count s + int k\<rparr>"
proof (induction k)
  case 0
  have "s = s\<lparr>state := state s, index_hole_count := index_hole_count s + int 0\<rparr>" by simp
  then show ?case by (metis funpow_0)
next
  case (Suc k)
  then obtain st where st: "(process_index_hole ^^ k) s =
      s\<lparr>state := st, index_hole_count := index_hole_count s + int k\<rparr>" by blast
  show ?case
  proof (cases "st = WaitForSixIndexPulses \<and> index_hole_count s + int k + 1 = 6")
    case True
    then have "(process_index_hole ^^ Suc k) s =
        s\<lparr>state := wait_six_index_pulses_next_state s,
          index_hole_count := index_hole_count s + int (Suc k)\<rparr>"
      by (simp add: st process_index_hole_def Let_def add.commute)
    then show ?thesis by blast
  next
    case False
    then have "(process_index_hole ^^ Suc k) s =
        s\<lparr>state := st, index_hole_count := index_hole_count s + int (Suc k)\<rparr>"
      by (auto simp add: st process_index_hole_def Let_def add.commute)
    then show ?thesis by blast
  qed
qed

lemma before_switch_shape:
  "\<exists>d st c. before_switch F D s =
     s\<lparr>drive := d, state := st, cycles := cycles s - 8, index_hole_count := c\<rparr>"
proof (cases "status s AND MotorOn F \<noteq> 0")
  case False
  then have "before_switch F D s =
      s\<lparr>drive := drive s, state := state s, cycles := cycles s - 8,
        index_hole_count := index_hole_count s\<rparr>"
    by (simp add: before_switch_def Let_def)
  then show ?thesis by blast
next
  case True
  obtain d h where dh: "drive_run_for_one_cycle D (drive s) = (d, h)" by fastforce
  obtain st where "(process_index_hole ^^ h) (s\<lparr>cycles := cycles s - 8, drive := d\<rparr>) =
      s\<lparr>cycles := cycles s - 8, drive := d, state := st,
        index_hole_count := index_hole_count s + int h\<rparr>"
    using funpow_index_hole_shape [of h "s\<lparr>cycles := cycles s - 8, drive := d\<rparr>"] by auto
  then have "before_switch F D s =
      s\<lparr>drive := d, state := st, cycles := cycles s - 8,
        index_hole_count := index_hole_count s + int h\<rparr>"
    using True dh by (simp add: before_switch_def Let_def Drive_run_for_cycles_1_def)
  then show ?thesis by blast
qed

lemma before_switch_motor_off:
  "status s AND MotorOn F = 0 \<Longrightarrow> before_switch F D s = s\<lparr>cycles := cycles s - 8\<rparr>"
  by (simp add: before_switch_def Let_def)

lemma switch_default:
  "state s = BeginType3 \<or> state s = VerifyTrack \<or> state s = TestWrite \<Longrightarrow>
     switch_state F D s = (case_default s, False)"
  by (auto simp: switch_state_def)

lemma log_step_refl: "log_step s s"
  by (simp add: log_step_def)

lemma log_step_trans: "log_step s s' \<Longrightarrow> log_step s' s'' \<Longrightarrow> log_step s s''"
  by (auto simp: log_step_def)

lemma log_step_case_default: "log_step s (case_default s)"
  by (simp add: log_step_def case_default_def Let_def)

lemma log_step_same:
  "has_hit_error s' = has_hit_error s \<Longrightarrow> printed s' = printed s \<Longrightarrow> log_step s s'"
  by (simp add: log_step_def)

lemma log_step_before_switch: "log_step s (before_switch F D s)"
proof -
  obtain d st c where "before_switch F D s =
     s\<lparr>drive := d, state := st, cycles := cycles s - 8, index_hole_count := c\<rparr>"
    using before_switch_shape [of F D s] by blast
  then show ?thesis by (simp add: log_step_same)
qed

lemma log_step_switch: "log_step s (fst (switch_state F D s))"
proof (cases "snd (switch_state F D s)")
  case True
  then have "has_hit_error (fst (switch_state F D s)) = has_hit_error s \<and>
      printed (fst (switch_state F D s)) = printed s"
    by (simp add: switch_state_def case_Waiting_def case_WaitForSixIndexPulses_def
      case_BeginType1_def case_BeginType1PostSpin_def case_TestTrack_def case_TestDirection_def
      case_TestHead_def case_StepDelay_def case_TestVerify_def case_BeginType2_def
      case_TestPause_def set_interrupt_request_def Let_def
      split: State.splits)
  then show ?thesis by (simp add: log_step_same)
next
  case False
  then have "fst (switch_state F D s) = case_default s"
    by (simp add: switch_state_def split: State.splits)
  then show ?thesis by (simp add: log_step_case_default)
qed

lemma log_step_loop_body: "log_step s (fst (loop_body F D s))"
  unfolding loop_body_def
  by (rule log_step_trans [OF log_step_before_switch log_step_switch])

lemma log_step_run_loop: "log_step s (run_loop F D s)"
proof (induction F D s rule: run_loop.induct)
  case (1 F D s)
  show ?case
  proof (cases "8 < cycles s")
    case False
    then show ?thesis by (simp add: run_loop_stop log_step_refl)
  next
    case True
    show ?thesis
    proof (cases "snd (loop_body F D s)")
      case c: True
      have "log_step (fst (loop_body F D s)) (run_loop F D (fst (loop_body F D s)))"
        using "1.IH" [OF True refl c] .
      then show ?thesis
        using log_step_loop_body [of s F D] run_loop_continue [OF True c]
        by (metis log_step_trans)
    next
      case c: False
      show ?thesis
        using log_step_loop_body [of s F D] run_loop_return [OF True c] by simp
    qed
  qed
qed

lemma log_step_run_for_cycles: "log_step s (run_for_cycles F D n s)"
proof -
  have "log_step s (s\<lparr>cycles := cycles s + n\<rparr>)" by (simp add: log_step_same)
  then show ?thesis
    unfolding run_for_cycles_def using log_step_run_loop by (rule log_step_trans)
qed

lemma log_step_calls: "log_step s (fold (run_for_cycles F D) ns s)"
proof (induction ns arbitrary: s)
  case Nil
  show ?case by (simp add: log_step_refl)
next
  case (Cons n ns)
  show ?case
    using log_step_run_for_cycles [of s F D n] Cons [of "run_for_cycles F D n s"]
    by (simp add: log_step_trans)
qed

lemma printed_at_most_once:
  "length (printed (fold (run_for_cycles F D) ns s)) \<le> Suc (length (printed s)) \<and>
   (has_hit_error s \<longrightarrow> printed (fold (run_for_cycles F D) ns s) = printed s)"
  using log_step_calls [of s F D ns] by (auto simp: log_step_def)


lemma before_switch_keeps:
  "has_hit_error (before_switch F D s) = has_hit_error s"
  "printed (before_switch F D s) = printed s"
  "status (before_switch F D s) = status s"
  "command (before_switch F D s) = command s"
  "track (before_switch F D s) = track s"
  "sector (before_switch F D s) = sector s"
  "data (before_switch F D s) = data s"
  "step_delay_count (before_switch F D s) = step_delay_count s"
  "has_command (before_switch F D s) = has_command s"
  "is_step_in (before_switch F D s) = is_step_in s"
  "interrupt_request (before_switch F D s) = interrupt_request s"
  using before_switch_shape [of F D s] by auto

text \<open>
  Claim C6. Suppose a call of \<open>run_for_cycles\<close> has a quantum to run and arrives at the switch
  in a state without a case (\<open>BeginType3\<close>, \<open>VerifyTrack\<close> or \<open>TestWrite\<close>). Then the call
  returns the controller as it arrived at the switch, with \<open>has_hit_error\<close> set and the state
  reported if and only if nothing had been reported before: exactly one quantum of eight cycles
  has been taken from the accumulator, and the registers, the status and the step-delay
  counter are those before the call. With the motor off nothing but the accumulator, the flag
  and the report differs from the controller before the call. Whatever calls follow, at most
  one report is ever added, and none if one had been made before.
\<close>

theorem unhandled_state_logs_once_and_returns:
  assumes "8 < cycles s + n"
    and "state (before_switch F D (s\<lparr>cycles := cycles s + n\<rparr>)) = BeginType3 \<or>
         state (before_switch F D (s\<lparr>cycles := cycles s + n\<rparr>)) = VerifyTrack \<or>
         state (before_switch F D (s\<lparr>cycles := cycles s + n\<rparr>)) = TestWrite"
  shows "run_for_cycles F D n s =
           (before_switch F D (s\<lparr>cycles := cycles s + n\<rparr>))
             \<lparr>has_hit_error := True,
              printed := (if has_hit_error s then printed s
                          else printed s @ [state (before_switch F D (s\<lparr>cycles := cycles s + n\<rparr>))])\<rparr> \<and>
         cycles (run_for_cycles F D n s) = cycles s + n - 8 \<and>
         status (run_for_cycles F D n s) = status s \<and>
         command (run_for_cycles F D n s) = command s \<and>
         track (run_for_cycles F D n s) = track s \<and>
         sector (run_for_cycles F D n s) = sector s \<and>
         data (run_for_cycles F D n s) = data s \<and>
         step_delay_count (run_for_cycles F D n s) = step_delay_count s \<and>
         (status s AND MotorOn F = 0 \<longrightarrow>
            run_for_cycles F D n s =
              s\<lparr>cycles := cycles s + n - 8, has_hit_error := True,
                printed := (if has_hit_error s then printed s else printed s @ [state s])\<rparr>) \<and>
         length (printed (fold (run_for_cycles F D) ms (run_for_cycles F D n s)))
           \<le> Suc (length (printed s)) \<and>
         (has_hit_error s \<longrightarrow>
            printed (fold (run_for_cycles F D) ms (run_for_cycles F D n s)) = printed s)"
proof -
  let ?s0 = "s\<lparr>cycles := cycles s + n\<rparr>"
  let ?s1 = "before_switch F D ?s0"
  have sw: "switch_state F D ?s1 = (case_default ?s1, False)"
    using assms(2) by (rule switch_default)
  have "run_loop F D ?s0 = fst (loop_body F D ?s0)"
    using assms(1) sw by (intro run_loop_return) (simp_all add: loop_body_def)
  then have run: "run_for_cycles F D n s = case_default ?s1"
    by (simp add: run_for_cycles_def loop_body_def sw)
  have 1: "run_for_cycles F D n s =
      ?s1\<lparr>has_hit_error := True,
          printed := (if has_hit_error s then printed s else printed s @ [state ?s1])\<rparr>"
    by (simp add: run case_default_def Let_def before_switch_keeps)
  have 2: "cycles (run_for_cycles F D n s) = cycles s + n - 8"
    by (simp add: 1)
  have 3: "status (run_for_cycles F D n s) = status s"
      "command (run_for_cycles F D n s) = command s"
      "track (run_for_cycles F D n s) = track s"
      "sector (run_for_cycles F D n s) = sector s"
      "data (run_for_cycles F D n s) = data s"
      "step_delay_count (run_for_cycles F D n s) = step_delay_count s"
    by (simp_all add: 1 before_switch_keeps)
  have 4: "run_for_cycles F D n s =
      s\<lparr>cycles := cycles s + n - 8, has_hit_error := True,
        printed := (if has_hit_error s then printed s else printed s @ [state s])\<rparr>"
    if "status s AND MotorOn F = 0"
  proof -
    have "?s1 = s\<lparr>cycles := cycles s + n - 8\<rparr>"
      using that by (simp add: before_switch_motor_off)
    then show ?thesis by (simp add: 1)
  qed
  have "fold (run_for_cycles F D) ms (run_for_cycles F D n s) =
      fold (run_for_cycles F D) (n # ms) s" by simp
  then have 5: "length (printed (fold (run_for_cycles F D) ms (run_for_cycles F D n s)))
        \<le> Suc (length (printed s)) \<and>
      (has_hit_error s \<longrightarrow>
        printed (fold (run_for_cycles F D) ms (run_for_cycles F D n s)) = printed s)"
    using printed_at_most_once [of F D "n # ms" s] by simp
  show ?thesis
    using 1 2 3 4 5 by blast
qed

theorem unhandled_state_logs_once_and_returns_witness:
  "run_for_cycles datasheet_flags test_drive 100 (blank\<lparr>state := BeginType3, track := 7\<rparr>) =
     blank\<lparr>state := BeginType3, track := 7, cycles := 92, has_hit_error := True,
       printed := [BeginType3]\<rparr> \<and>
   length (printed (fold (run_for_cycles datasheet_flags test_drive) [100, 100]
     (run_for_cycles datasheet_flags test_drive 100 (blank\<lparr>state := BeginType3, track := 7\<rparr>))))
     \<le> Suc 0"
proof -
  let ?s = "blank\<lparr>state := BeginType3, track := 7\<rparr>"
  have 1: "8 < cycles ?s + 100"
    by (simp add: blank_def)
  have 2: "state (before_switch datasheet_flags test_drive (?s\<lparr>cycles := cycles ?s + 100\<rparr>)) = BeginType3 \<or>
      state (before_switch datasheet_flags test_drive (?s\<lparr>cycles := cycles ?s + 100\<rparr>)) = VerifyTrack \<or>
      state (before_switch datasheet_flags test_drive (?s\<lparr>cycles := cycles ?s + 100\<rparr>)) = TestWrite"
    by (simp add: before_switch_def blank_def datasheet_flags_def)
  have off: "status ?s AND MotorOn datasheet_flags = 0"
    by (simp add: blank_def)
  note T = unhandled_state_logs_once_and_returns [OF 1 2, of "[100, 100]"]
  from T off have "run_for_cycles datasheet_flags test_drive 100 ?s =
      ?s\<lparr>cycles := cycles ?s + 100 - 8, has_hit_error := True,
        printed := (if has_hit_error ?s then printed ?s else printed ?s @ [state ?s])\<rparr>"
    by blast
  also have "\<dots> = blank\<lparr>state := BeginType3, track := 7, cycles := 92, has_hit_error := True,
       printed := [BeginType3]\<rparr>"
    by (simp add: blank_def)
  finally have a: "run_for_cycles datasheet_flags test_drive 100 ?s =
      blank\<lparr>state := BeginType3, track := 7, cycles := 92, has_hit_error := True,
       printed := [BeginType3]\<rparr>" .
  from T have "length (printed (fold (run_for_cycles datasheet_flags test_drive) [100, 100]
      (run_for_cycles datasheet_flags test_drive 100 ?s))) \<le> Suc (length (printed ?s))"
    by blast
  moreover have "length (printed ?s) = 0"
    by (simp add: blank_def)
  ultimately have b: "length (printed (fold (run_for_cycles datasheet_flags test_drive) [100, 100]
      (run_for_cycles datasheet_flags test_drive 100 ?s))) \<le> Suc 0"
    by (simp only:)
  from a b show ?thesis by (rule conjI)
qed


section \<open>Quanta of eight cycles\<close>

lemma run_loop_quanta:
  "\<exists>k. run_loop F D s = ((\<lambda>x. fst (loop_body F D x)) ^^ k) s \<and>
       unat (cycles (run_loop F D s)) + 8 * k = unat (cycles s)"
proof (induction F D s rule: run_loop.induct)
  case (1 F D s)
  let ?q = "\<lambda>x. fst (loop_body F D x)"
  show ?case
  proof (cases "8 < cycles s")
    case False
    then have "run_loop F D s = (?q ^^ 0) s \<and> unat (cycles (run_loop F D s)) + 8 * 0 = unat (cycles s)"
      by (simp add: run_loop_stop)
    then show ?thesis by blast
  next
    case True
    have c8: "unat (cycles s - 8) + 8 = unat (cycles s)"
      using True by (simp add: unat_sub word_le_nat_alt word_less_nat_alt)
    show ?thesis
    proof (cases "snd (loop_body F D s)")
      case c: False
      have "run_loop F D s = (?q ^^ 1) s \<and> unat (cycles (run_loop F D s)) + 8 * 1 = unat (cycles s)"
        using run_loop_return [OF True c] c8 by simp
      then show ?thesis by blast
    next
      case c: True
      from "1.IH" [OF True refl c]
      obtain k where k: "run_loop F D (?q s) = (?q ^^ k) (?q s)"
          "unat (cycles (run_loop F D (?q s))) + 8 * k = unat (cycles (?q s))"
        by blast
      have "(?q ^^ Suc k) s = (?q ^^ k) (?q s)"
        by (simp only: funpow_Suc_right o_apply)
      then have "run_loop F D s = (?q ^^ Suc k) s"
        using run_loop_continue [OF True c] k(1) by simp
      moreover have "unat (cycles (run_loop F D s)) + 8 * Suc k = unat (cycles s)"
        using run_loop_continue [OF True c] k(2) c8 by simp
      ultimately show ?thesis by blast
    qed
  qed
qed

lemma drive_process_index_holes [simp]: "drive ((process_index_hole ^^ k) s) = drive s"
  using funpow_index_hole_shape [of k s] by auto

lemma drive_before_switch:
  "drive (before_switch F D s) =
     (if status s AND MotorOn F \<noteq> 0 then fst (drive_run_for_one_cycle D (drive s)) else drive s)"
  by (simp add: before_switch_def Let_def Drive_run_for_cycles_1_def split: prod.splits)

lemma test_drive_switch: "fst (drive (fst (switch_state F test_drive s))) = fst (drive s)"
  by (simp add: switch_state_def case_Waiting_def case_WaitForSixIndexPulses_def
      case_BeginType1_def case_BeginType1PostSpin_def case_TestTrack_def case_TestDirection_def
      case_TestHead_def case_StepDelay_def case_TestVerify_def case_BeginType2_def
      case_TestPause_def case_default_def set_interrupt_request_def Let_def test_drive_def
      split: State.splits prod.splits)

lemma switch_returns:
  "\<not> snd (switch_state F D x) \<Longrightarrow>
     has_hit_error (fst (switch_state F D x)) \<and>
     (state (fst (switch_state F D x)) = BeginType3 \<or>
      state (fst (switch_state F D x)) = VerifyTrack \<or>
      state (fst (switch_state F D x)) = TestWrite)"
  by (simp add: switch_state_def case_default_def Let_def split: State.splits)

lemma run_loop_leaves:
  "cycles (run_loop F D s) \<le> 8 \<or>
   has_hit_error (run_loop F D s) \<and>
   (state (run_loop F D s) = BeginType3 \<or> state (run_loop F D s) = VerifyTrack \<or>
    state (run_loop F D s) = TestWrite)"
proof (induction F D s rule: run_loop.induct)
  case (1 F D s)
  show ?case
  proof (cases "8 < cycles s")
    case False
    then show ?thesis by (simp add: run_loop_stop not_less)
  next
    case True
    show ?thesis
    proof (cases "snd (loop_body F D s)")
      case c: True
      show ?thesis
        using "1.IH" [OF True refl c] run_loop_continue [OF True c] by simp
    next
      case c: False
      then have "\<not> snd (switch_state F D (before_switch F D s))"
        by (simp add: loop_body_def)
      from switch_returns [OF this] show ?thesis
        using run_loop_return [OF True c] by (simp add: loop_body_def)
    qed
  qed
qed

lemma run_loop_nonzero: "cycles s \<noteq> 0 \<Longrightarrow> cycles (run_loop F D s) \<noteq> 0"
proof (induction F D s rule: run_loop.induct)
  case (1 F D s)
  show ?case
  proof (cases "8 < cycles s")
    case False
    then show ?thesis using "1.prems" by (simp add: run_loop_stop)
  next
    case True
    then have nz: "cycles s - 8 \<noteq> 0" by auto
    show ?thesis
    proof (cases "snd (loop_body F D s)")
      case c: True
      show ?thesis
        using "1.IH" [OF True refl c] nz run_loop_continue [OF True c] by simp
    next
      case c: False
      show ?thesis
        using nz run_loop_return [OF True c] by simp
    qed
  qed
qed

lemma run_for_cycles_0: "run_for_cycles F D 0 s = run_loop F D s"
  by (simp add: run_for_cycles_def)

lemma run_for_cycles_pass:
  assumes "8 < cycles s + n"
  shows "run_for_cycles F D n s =
      (if snd (loop_body F D (s\<lparr>cycles := cycles s + n\<rparr>))
       then run_for_cycles F D 0 (fst (loop_body F D (s\<lparr>cycles := cycles s + n\<rparr>)))
       else fst (loop_body F D (s\<lparr>cycles := cycles s + n\<rparr>)))"
proof -
  have c: "8 < cycles (s\<lparr>cycles := cycles s + n\<rparr>)" using assms by simp
  show ?thesis
    using run_loop_continue [OF c, of F D] run_loop_return [OF c, of F D]
    by (simp add: run_for_cycles_0) (simp add: run_for_cycles_def)
qed

lemma passes_count:
  fixes total left :: "32 word"
  assumes "unat left + 8 * k = unat total" and "left \<le> 8" and "total \<noteq> 0 \<longrightarrow> left \<noteq> 0"
  shows "k = (unat total - 1) div 8"
proof -
  have l8: "unat left \<le> 8" using assms(2) by (simp add: word_le_nat_alt)
  show ?thesis
  proof (cases "total = 0")
    case True
    then show ?thesis using assms(1) by simp
  next
    case False
    then have "left \<noteq> 0" using assms(3) by simp
    then have "1 \<le> unat left" by (simp add: unat_eq_0 Suc_le_eq unat_gt_0)
    with l8 assms(1) show ?thesis by arith
  qed
qed

text \<open>
  Claim C8. A call of \<open>run_for_cycles\<close> adds its argument to the accumulator. With no more
  than eight cycles accumulated it makes no pass through the loop body; with more than eight
  it makes a pass and, unless the pass ended at the default label, goes on as a call that adds
  nothing. A pass takes exactly eight cycles from the accumulator, advances the drive by one
  cycle if and only if \<open>MotorOn\<close> is set in the status, and then runs the switch; on the drive
  that counts its cycles, a pass adds one to the count exactly when \<open>MotorOn\<close> is set. So a
  call is \<open>k\<close> passes and takes \<open>8 * k\<close> cycles, where \<open>k\<close> is \<open>(c - 1) div 8\<close> for \<open>c\<close>
  cycles accumulated, unless a pass ended at the default label; and it leaves at most eight
  cycles unless it ended there. The eight is a literal of the code: no argument or member
  sets it.
\<close>

theorem eight_cycles_per_pass:
  "(cycles s + n \<le> 8 \<longrightarrow> run_for_cycles F D n s = s\<lparr>cycles := cycles s + n\<rparr>) \<and>
   (8 < cycles s + n \<longrightarrow>
      run_for_cycles F D n s =
        (if snd (loop_body F D (s\<lparr>cycles := cycles s + n\<rparr>))
         then run_for_cycles F D 0 (fst (loop_body F D (s\<lparr>cycles := cycles s + n\<rparr>)))
         else fst (loop_body F D (s\<lparr>cycles := cycles s + n\<rparr>)))) \<and>
   loop_body F D s =
     switch_state F D
       (if status s AND MotorOn F \<noteq> 0 then Drive_run_for_cycles_1 D (s\<lparr>cycles := cycles s - 8\<rparr>)
        else s\<lparr>cycles := cycles s - 8\<rparr>) \<and>
   cycles (fst (loop_body F D s)) = cycles s - 8 \<and>
   (\<exists>k. run_for_cycles F D n s =
          ((\<lambda>x. fst (loop_body F D x)) ^^ k) (s\<lparr>cycles := cycles s + n\<rparr>) \<and>
        unat (cycles (run_for_cycles F D n s)) + 8 * k = unat (cycles s + n) \<and>
        (k = (unat (cycles s + n) - 1) div 8 \<or>
         has_hit_error (run_for_cycles F D n s) \<and>
         (state (run_for_cycles F D n s) = BeginType3 \<or>
          state (run_for_cycles F D n s) = VerifyTrack \<or>
          state (run_for_cycles F D n s) = TestWrite))) \<and>
   (cycles (run_for_cycles F D n s) \<le> 8 \<or>
    has_hit_error (run_for_cycles F D n s) \<and>
    (state (run_for_cycles F D n s) = BeginType3 \<or>
     state (run_for_cycles F D n s) = VerifyTrack \<or>
     state (run_for_cycles F D n s) = TestWrite)) \<and>
   drive (before_switch F D s) =
     (if status s AND MotorOn F \<noteq> 0 then fst (drive_run_for_one_cycle D (drive s))
      else drive s) \<and>
   fst (drive (fst (loop_body F test_drive t))) =
     fst (drive t) + (if status t AND MotorOn F \<noteq> 0 then 1 else 0)"
proof -
  let ?s0 = "s\<lparr>cycles := cycles s + n\<rparr>"
  let ?r = "run_for_cycles F D n s"
  have r: "?r = run_loop F D ?s0" by (simp add: run_for_cycles_def)
  have 0: "?r = ?s0" if "cycles s + n \<le> 8"
    using that by (simp add: run_for_cycles_def run_loop_stop not_less)
  have 1: "?r = (if snd (loop_body F D ?s0) then run_for_cycles F D 0 (fst (loop_body F D ?s0))
                 else fst (loop_body F D ?s0))" if "8 < cycles s + n"
    using that by (rule run_for_cycles_pass)
  have 2: "loop_body F D s =
     switch_state F D
       (if status s AND MotorOn F \<noteq> 0 then Drive_run_for_cycles_1 D (s\<lparr>cycles := cycles s - 8\<rparr>)
        else s\<lparr>cycles := cycles s - 8\<rparr>)"
    by (simp add: loop_body_def before_switch_def Let_def)
  have 3: "cycles (fst (loop_body F D s)) = cycles s - 8" by simp
  have leaves: "cycles ?r \<le> 8 \<or>
      has_hit_error ?r \<and> (state ?r = BeginType3 \<or> state ?r = VerifyTrack \<or> state ?r = TestWrite)"
    unfolding r by (rule run_loop_leaves)
  have nz: "cycles s + n \<noteq> 0 \<longrightarrow> cycles ?r \<noteq> 0"
    unfolding r using run_loop_nonzero [of ?s0 F D] by simp
  obtain k where k: "?r = ((\<lambda>x. fst (loop_body F D x)) ^^ k) ?s0"
      "unat (cycles ?r) + 8 * k = unat (cycles s + n)"
    using run_loop_quanta [of F D ?s0] unfolding r by auto
  have "k = (unat (cycles s + n) - 1) div 8 \<or>
      has_hit_error ?r \<and> (state ?r = BeginType3 \<or> state ?r = VerifyTrack \<or> state ?r = TestWrite)"
    using leaves passes_count [OF k(2) _ nz] by blast
  with k have 4: "\<exists>k. ?r = ((\<lambda>x. fst (loop_body F D x)) ^^ k) ?s0 \<and>
        unat (cycles ?r) + 8 * k = unat (cycles s + n) \<and>
        (k = (unat (cycles s + n) - 1) div 8 \<or>
         has_hit_error ?r \<and>
         (state ?r = BeginType3 \<or> state ?r = VerifyTrack \<or> state ?r = TestWrite))"
    by blast
  have 5: "fst (drive (fst (loop_body F test_drive t))) =
     fst (drive t) + (if status t AND MotorOn F \<noteq> 0 then 1 else 0)"
    by (simp add: loop_body_def test_drive_switch drive_before_switch)
      (simp add: test_drive_def split: prod.splits)
  show ?thesis
    using 0 1 2 3 4 leaves 5 drive_before_switch [of F D s] by blast
qed


theorem eight_cycles_per_pass_witness:
  "run_for_cycles datasheet_flags test_drive 8 blank = blank\<lparr>cycles := 8\<rparr> \<and>
   run_for_cycles datasheet_flags test_drive 17 (set_register 0 0x00 (WD1770_new blank)) =
     blank\<lparr>command := 0, state := BeginType1PostSpin, status := 1, cycles := 1\<rparr> \<and>
   run_for_cycles datasheet_flags test_drive 100 (blank\<lparr>state := BeginType3\<rparr>) =
     blank\<lparr>state := BeginType3, cycles := 92, has_hit_error := True, printed := [BeginType3]\<rparr>"
proof -
  let ?F = datasheet_flags
  let ?D = test_drive
  let ?r0 = "set_register 0 0x00 (WD1770_new blank)"
  let ?r1 = "blank\<lparr>command := 0, state := BeginType1, cycles := 9\<rparr>"
  let ?r2 = "blank\<lparr>command := 0, state := BeginType1PostSpin, status := 1, cycles := 1\<rparr>"
  let ?u = "blank\<lparr>state := BeginType3\<rparr>"
  have a: "run_for_cycles ?F ?D 8 blank = blank\<lparr>cycles := 8\<rparr>"
  proof -
    have "cycles blank + 8 \<le> 8" by (simp add: blank_def)
    with eight_cycles_per_pass [of blank 8 ?F ?D, THEN conjunct1]
    have "run_for_cycles ?F ?D 8 blank = blank\<lparr>cycles := cycles blank + 8\<rparr>" by (rule mp)
    then show ?thesis by (simp add: blank_def)
  qed
  have lb0: "loop_body ?F ?D (?r0\<lparr>cycles := cycles ?r0 + 17\<rparr>) = (?r1, True)"
    by (simp add: loop_body_def before_switch_def switch_state_def case_Waiting_def
        set_register_def WD1770_new_def blank_def datasheet_flags_def Let_def)
  have lb1: "loop_body ?F ?D (?r1\<lparr>cycles := cycles ?r1 + 0\<rparr>) = (?r2, True)"
    by (simp add: loop_body_def before_switch_def switch_state_def case_BeginType1_def
        set_interrupt_request_def blank_def datasheet_flags_def Let_def)
  have lbu: "loop_body ?F ?D (?u\<lparr>cycles := cycles ?u + 100\<rparr>) =
      (blank\<lparr>state := BeginType3, cycles := 92, has_hit_error := True, printed := [BeginType3]\<rparr>,
       False)"
    by (simp add: loop_body_def before_switch_def switch_state_def case_default_def
        blank_def datasheet_flags_def Let_def)
  have p0: "run_for_cycles ?F ?D 17 ?r0 = run_for_cycles ?F ?D 0 ?r1"
  proof -
    have "8 < cycles ?r0 + 17"
      by (simp add: set_register_def WD1770_new_def blank_def)
    with eight_cycles_per_pass [of ?r0 17 ?F ?D, THEN conjunct2, THEN conjunct1]
    have "run_for_cycles ?F ?D 17 ?r0 =
        (if snd (loop_body ?F ?D (?r0\<lparr>cycles := cycles ?r0 + 17\<rparr>))
         then run_for_cycles ?F ?D 0 (fst (loop_body ?F ?D (?r0\<lparr>cycles := cycles ?r0 + 17\<rparr>)))
         else fst (loop_body ?F ?D (?r0\<lparr>cycles := cycles ?r0 + 17\<rparr>)))"
      by (rule mp)
    then show ?thesis by (simp only: lb0 fst_conv snd_conv if_True)
  qed
  have p1: "run_for_cycles ?F ?D 0 ?r1 = run_for_cycles ?F ?D 0 ?r2"
  proof -
    have "8 < cycles ?r1 + 0" by (simp add: blank_def)
    with eight_cycles_per_pass [of ?r1 0 ?F ?D, THEN conjunct2, THEN conjunct1]
    have "run_for_cycles ?F ?D 0 ?r1 =
        (if snd (loop_body ?F ?D (?r1\<lparr>cycles := cycles ?r1 + 0\<rparr>))
         then run_for_cycles ?F ?D 0 (fst (loop_body ?F ?D (?r1\<lparr>cycles := cycles ?r1 + 0\<rparr>)))
         else fst (loop_body ?F ?D (?r1\<lparr>cycles := cycles ?r1 + 0\<rparr>)))"
      by (rule mp)
    then show ?thesis by (simp only: lb1 fst_conv snd_conv if_True)
  qed
  have p2: "run_for_cycles ?F ?D 0 ?r2 = ?r2"
  proof -
    have "cycles ?r2 + 0 \<le> 8" by (simp add: blank_def)
    with eight_cycles_per_pass [of ?r2 0 ?F ?D, THEN conjunct1]
    have "run_for_cycles ?F ?D 0 ?r2 = ?r2\<lparr>cycles := cycles ?r2 + 0\<rparr>" by (rule mp)
    then show ?thesis by (simp add: blank_def)
  qed
  have b: "run_for_cycles ?F ?D 17 ?r0 = ?r2"
    by (simp only: p0 p1 p2)
  have c: "run_for_cycles ?F ?D 100 ?u =
      blank\<lparr>state := BeginType3, cycles := 92, has_hit_error := True, printed := [BeginType3]\<rparr>"
  proof -
    have "8 < cycles ?u + 100" by (simp add: blank_def)
    with eight_cycles_per_pass [of ?u 100 ?F ?D, THEN conjunct2, THEN conjunct1]
    have "run_for_cycles ?F ?D 100 ?u =
        (if snd (loop_body ?F ?D (?u\<lparr>cycles := cycles ?u + 100\<rparr>))
         then run_for_cycles ?F ?D 0 (fst (loop_body ?F ?D (?u\<lparr>cycles := cycles ?u + 100\<rparr>)))
         else fst (loop_body ?F ?D (?u\<lparr>cycles := cycles ?u + 100\<rparr>)))"
      by (rule mp)
    then show ?thesis by (simp only: lbu fst_conv snd_conv if_False)
  qed
  from a b c show ?thesis by (intro conjI)
qed

section \<open>Fields of a PowerPC instruction\<close>


lemma li_cases:
  "li i = (if bit (opcode i) 25 then (opcode i AND 0x03fffffc) OR 0xfc000000
           else opcode i AND 0x03fffffc)"
proof -
  have "drop_bit 25 (opcode i) AND 1 = (if bit (opcode i) 25 then 1 else 0)"
    by (simp add: and_one_eq bit_iff_odd_drop_bit mod_2_eq_odd)
  then show ?thesis
    by (simp add: li_def extensions_def)
qed

lemma masks:
  "(0x03fffffc :: 32 word) = push_bit 2 (mask 24)"
  "(0xfc000000 :: 32 word) = push_bit 26 (mask 6)"
  "(3 :: 32 word) = mask 2"
  "(0xfffc :: 32 word) = push_bit 2 (mask 14)"
  by (simp_all add: mask_eq_exp_minus_1)

lemma li_signed: "li i = signed_take_bit 25 (opcode i AND NOT 3)"
  unfolding li_cases masks
proof (rule bit_word_eqI)
  fix n
  assume "n < LENGTH(32)"
  then consider "n < 25" | "n = 25" | "26 \<le> n" "n < 32" by fastforce
  then show "bit (if bit (opcode i) 25
                  then opcode i AND push_bit 2 (mask 24) OR push_bit 26 (mask 6)
                  else opcode i AND push_bit 2 (mask 24)) n =
             bit (signed_take_bit 25 (opcode i AND NOT (mask 2))) n"
    by cases (auto simp: bit_simps min_def)
qed

lemma li_low: "take_bit 26 (li i) = opcode i AND 0x03fffffc"
  unfolding li_cases masks
  by (rule bit_word_eqI) (auto simp: bit_simps)

lemma li_high: "drop_bit 26 (li i) = (if bit (opcode i) 25 then 0x3f else 0)"
proof -
  have m: "(0x3f :: 32 word) = mask 6" by (simp add: mask_eq_exp_minus_1)
  show ?thesis
    unfolding li_cases masks m
    by (rule bit_word_eqI) (auto simp: bit_simps)
qed

lemma sint_mod4:
  fixes w :: "'a::len word"
  assumes len: "2 \<le> LENGTH('a)" and low: "w AND 3 = 0"
  shows "4 dvd sint w"
proof -
  have "take_bit 2 w = w AND 3"
    by (simp add: take_bit_eq_mask mask_eq_exp_minus_1)
  then have "take_bit 2 w = 0" using low by simp
  then have "uint (take_bit 2 w) = 0" by simp
  then have "take_bit 2 (uint w) = 0"
    by (simp add: unsigned_take_bit_eq)
  then have u: "4 dvd uint w"
    by (simp add: take_bit_eq_mod mod_eq_0_iff_dvd)
  obtain m where m: "LENGTH('a) = Suc (Suc m)"
    using len by (metis One_nat_def Suc_1 Suc_le_D Suc_le_mono)
  have S: "Suc (LENGTH('a) - Suc 0) = LENGTH('a)" by simp
  have tb: "take_bit LENGTH('a) (uint w) = uint w"
    by (rule take_bit_int_eq_self) simp_all
  have "sint w = signed_take_bit (LENGTH('a) - Suc 0) (uint w)"
    by (rule sint_uint)
  also have "\<dots> = take_bit (Suc (LENGTH('a) - Suc 0)) (uint w) -
      2 ^ Suc (LENGTH('a) - Suc 0) * of_bool (bit (uint w) (LENGTH('a) - Suc 0))"
    by (rule signed_take_bit_eq_take_bit_minus)
  finally have "sint w = uint w - 2 ^ LENGTH('a) * of_bool (bit (uint w) (LENGTH('a) - Suc 0))"
    unfolding S tb .
  moreover have "(4 :: int) dvd 2 ^ LENGTH('a)"
    by (simp add: m)
  ultimately show ?thesis using u by simp
qed

lemma li_field: "li i = scast (ucast (opcode i AND 0x03fffffc) :: 26 word)"
  unfolding li_signed masks
  by (rule bit_word_eqI) (auto simp: bit_simps min_def)

lemma li_range: "- (2 ^ 25) \<le> sint (li i) \<and> sint (li i) < 2 ^ 25"
proof -
  have "sint (li i) = sint (ucast (opcode i AND 0x03fffffc) :: 26 word)"
    unfolding li_field by (simp add: sint_up_scast is_up)
  then show ?thesis
    using sint_ge [of "ucast (opcode i AND 0x03fffffc) :: 26 word"]
      sint_lt [of "ucast (opcode i AND 0x03fffffc) :: 26 word"] by simp
qed

lemma li_dvd: "4 dvd sint (li i)"
proof (rule sint_mod4)
  show "li i AND 3 = 0"
    unfolding li_cases masks by (rule bit_word_eqI) (auto simp: bit_simps)
qed simp

lemma bd_dvd: "4 dvd sint (bd i)"
proof (rule sint_mod4)
  have m: "(3 :: 16 word) = mask 2" by (simp add: mask_eq_exp_minus_1)
  show "bd i AND 3 = 0"
    unfolding bd_def masks m by (rule bit_word_eqI) (auto simp: bit_simps)
qed simp

text \<open>
  Claim C10. \<open>li\<close> is the 26-bit field of the opcode with its two low bits cleared, sign
  extended from bit 25: the low 26 bits of the result are those of \<open>opcode AND 0x03fffffc\<close>
  and the six bits above are all equal to bit 25 of the opcode. Its signed value is a multiple
  of 4 between \<open>- 2 ^ 25\<close> and \<open>2 ^ 25 - 4\<close>. \<open>bd\<close> is \<open>opcode AND 0xfffc\<close> cut to 16 bits,
  and its signed value is a multiple of 4.
\<close>

theorem li_bd_sign_extended:
  "li i = scast (ucast (opcode i AND 0x03fffffc) :: 26 word) \<and>
   take_bit 26 (li i) = opcode i AND 0x03fffffc \<and>
   drop_bit 26 (li i) = (if bit (opcode i) 25 then 0x3f else 0) \<and>
   4 dvd sint (li i) \<and> - (2 ^ 25) \<le> sint (li i) \<and> sint (li i) \<le> 2 ^ 25 - 4 \<and>
   bd i = ucast (opcode i AND 0xfffc) \<and> 4 dvd sint (bd i)"
proof -
  obtain q where q: "sint (li i) = 4 * q"
    using li_dvd [of i] by (auto simp: dvd_def)
  have "sint (li i) < 2 ^ 25" using li_range [of i] by simp
  then have "sint (li i) \<le> 2 ^ 25 - 4" unfolding q by simp
  then show ?thesis
    using li_field [of i] li_low [of i] li_high [of i] li_dvd [of i] li_range [of i]
      bd_dvd [of i]
    by (simp add: bd_def)
qed

text \<open>
  Claim C7. The constructor from a raw word gives the operation \<open>Undefined\<close> and a clear
  supervisor flag, whatever the word, and stores the word. Every accessor is a function of
  the stored opcode alone: on any instruction, whatever operation and flag it holds, it
  returns what it returns on the instruction constructed from that instruction's opcode.
  The accessors are functions from an instruction to a value: they have no state of their
  own and give no new instruction back.
\<close>

theorem accessors_depend_on_opcode_only:
  "operation (Instruction_opcode w) = Undefined \<and>
   \<not> is_supervisor (Instruction_opcode w) \<and>
   opcode (Instruction_opcode w) = w \<and>
   opcode (Instruction_decoded op w super) = w \<and>
   uimm i = uimm (Instruction_opcode (opcode i)) \<and>
   simm i = simm (Instruction_opcode (opcode i)) \<and>
   d_field i = d_field (Instruction_opcode (opcode i)) \<and>
   ds i = ds (Instruction_opcode (opcode i)) \<and>
   imm i = imm (Instruction_opcode (opcode i)) \<and>
   to i = to (Instruction_opcode (opcode i)) \<and>
   rA i = rA (Instruction_opcode (opcode i)) \<and>
   rB i = rB (Instruction_opcode (opcode i)) \<and>
   rD i = rD (Instruction_opcode (opcode i)) \<and>
   rS i = rS (Instruction_opcode (opcode i)) \<and>
   frA i = frA (Instruction_opcode (opcode i)) \<and>
   frB i = frB (Instruction_opcode (opcode i)) \<and>
   frC i = frC (Instruction_opcode (opcode i)) \<and>
   frS i = frS (Instruction_opcode (opcode i)) \<and>
   frD i = frD (Instruction_opcode (opcode i)) \<and>
   bo i = bo (Instruction_opcode (opcode i)) \<and>
   branch_options i = branch_options (Instruction_opcode (opcode i)) \<and>
   branch_prediction_hint i = branch_prediction_hint (Instruction_opcode (opcode i)) \<and>
   bi i = bi (Instruction_opcode (opcode i)) \<and>
   bd i = bd (Instruction_opcode (opcode i)) \<and>
   mb i = mb (Instruction_opcode (opcode i)) \<and>
   me i = me (Instruction_opcode (opcode i)) \<and>
   crbA i = crbA (Instruction_opcode (opcode i)) \<and>
   crbB i = crbB (Instruction_opcode (opcode i)) \<and>
   crbD i = crbD (Instruction_opcode (opcode i)) \<and>
   crfD i = crfD (Instruction_opcode (opcode i)) \<and>
   crfS i = crfS (Instruction_opcode (opcode i)) \<and>
   crm i = crm (Instruction_opcode (opcode i)) \<and>
   fm i = fm (Instruction_opcode (opcode i)) \<and>
   nb i = nb (Instruction_opcode (opcode i)) \<and>
   sh i = sh (Instruction_opcode (opcode i)) \<and>
   sr i = sr (Instruction_opcode (opcode i)) \<and>
   li i = li (Instruction_opcode (opcode i)) \<and>
   aa i = aa (Instruction_opcode (opcode i)) \<and>
   lk i = lk (Instruction_opcode (opcode i)) \<and>
   rc i = rc (Instruction_opcode (opcode i)) \<and>
   l_field i = l_field (Instruction_opcode (opcode i)) \<and>
   oe i = oe (Instruction_opcode (opcode i))"
  by (simp add: Instruction_opcode_def Instruction_decoded_def uimm_def simm_def d_field_def
      ds_def imm_def to_def rA_def rB_def rD_def rS_def frA_def frB_def frC_def frS_def frD_def
      bo_def branch_options_def branch_prediction_hint_def bi_def bd_def mb_def me_def
      crbA_def crbB_def crbD_def crfD_def crfS_def crm_def fm_def nb_def sh_def sr_def li_def
      aa_def lk_def rc_def l_field_def oe_def)

section \<open>Open bus\<close>

text \<open>
  Claim C5 as stated fails: a microcycle with \<open>Read\<close>, \<open>SelectWord\<close> and
  \<open>InterruptAcknowledge\<close> set, at an address in a region without mask that is neither a CIA
  nor a chipset address, goes through \<open>perform_bus_operation\<close> with its value as it was. The
  function returns at the interrupt acknowledge, before it looks at the address.
\<close>

theorem open_bus_counterexample:
  "cycle_operation acknowledge_cycle AND Read test_operations \<noteq> 0 \<and>
   cycle_operation acknowledge_cycle AND SelectWord test_operations \<noteq> 0 \<and>
   read_write_mask test_parts (memory test_machine)
     (drop_bit 18 (host_endian_byte_address test_parts acknowledge_cycle)) = 0 \<and>
   host_endian_byte_address test_parts acknowledge_cycle AND 0xe00000 \<noteq> 0xa00000 \<and>
   host_endian_byte_address test_parts acknowledge_cycle < 0xdff000 \<and>
   val (fst (snd (perform_bus_operation test_operations test_parts acknowledge_cycle test_machine)))
     = 0x1234 \<and>
   val (fst (snd (perform_bus_operation test_operations test_parts acknowledge_cycle test_machine)))
     \<noteq> 0xffff"
  by (simp add: perform_bus_operation_def advance_for_cycle_def access_def test_operations_def
      test_parts_def test_machine_def acknowledge_cycle_def Let_def)

text \<open>
  Claim C5, amended. Let the microcycle expose an address (\<open>NewAddress\<close> or \<open>SameAddress\<close>),
  be no interrupt acknowledge and select a byte or a word; let \<open>m1\<close> be the machine once the
  chipset has been advanced for the cycle (and the memory map reset, if \<open>Reset\<close> is set), and
  let the address lie in a region whose mask in \<open>m1\<close> is zero, match no CIA and lie outside
  \<open>0xdff000\<close> to \<open>0xdff1be\<close>. Then \<open>perform_bus_operation\<close> returns the access delay; a read
  has its value set by \<open>set_value16(0xffff)\<close>, a write leaves the microcycle as it is; and the
  machine is \<open>m1\<close> with the peripheral-address line cleared, its memory that of \<open>m1\<close>.
\<close>

theorem open_bus:
  assumes "cycle_operation cycle AND InterruptAcknowledge Ops = 0"
    and "cycle_operation cycle AND (NewAddress Ops OR SameAddress Ops) \<noteq> 0"
    and "cycle_operation cycle AND (SelectByte Ops OR SelectWord Ops) \<noteq> 0"
    and "advance_for_cycle Ops E cycle m = (delay, m1)"
    and "read_write_mask E (memory m1) (drop_bit 18 (host_endian_byte_address E cycle)) = 0"
    and "host_endian_byte_address E cycle AND 0xe00000 \<noteq> 0xa00000"
    and "host_endian_byte_address E cycle < 0xdff000 \<or>
         0xdff1be < host_endian_byte_address E cycle"
  shows "perform_bus_operation Ops E cycle m =
           (delay,
            (if cycle_operation cycle AND Read Ops \<noteq> 0 then set_value16 E 0xffff cycle
             else cycle),
            m1\<lparr>is_peripheral_address := False\<rparr>) \<and>
         memory (snd (snd (perform_bus_operation Ops E cycle m))) = memory m1"
proof -
  have range: "(0xdff000 \<le> host_endian_byte_address E cycle \<and>
      host_endian_byte_address E cycle \<le> 0xdff1be) = False"
    using assms(7) by auto
  show ?thesis
    using assms(1-6) by (simp add: perform_bus_operation_def access_def Let_def range)
qed

theorem open_bus_witness:
  "perform_bus_operation test_operations test_parts read_cycle test_machine =
     (0, read_cycle\<lparr>val := 0xffff\<rparr>, test_machine) \<and>
   perform_bus_operation test_operations test_parts write_cycle test_machine =
     (0, write_cycle, test_machine)"
proof -
  have adv: "advance_for_cycle test_operations test_parts c test_machine = (0, test_machine)" for c
    by (simp add: advance_for_cycle_def test_parts_def test_machine_def Let_def)
  have r: "perform_bus_operation test_operations test_parts read_cycle test_machine =
     (0, read_cycle\<lparr>val := 0xffff\<rparr>, test_machine)"
    using open_bus [of read_cycle test_operations test_parts test_machine 0 test_machine, OF _ _ _ adv]
    by (simp add: test_operations_def test_parts_def test_machine_def read_cycle_def)
  have w: "perform_bus_operation test_operations test_parts write_cycle test_machine =
     (0, write_cycle, test_machine)"
    using open_bus [of write_cycle test_operations test_parts test_machine 0 test_machine, OF _ _ _ adv]
    by (simp add: test_operations_def test_parts_def test_machine_def write_cycle_def)
  from r w show ?thesis by (rule conjI)
qed

section \<open>Construction of the Amiga\<close>

text \<open>
  Claim C9. If the fetched ROMs fail validation, construction ends with \<open>MissingROMs\<close> thrown
  and gives no machine. If they pass, and the validated map holds the Kickstart ROM (which
  \<open>roms.find(rom_name)->second\<close> takes for granted), construction gives the machine: the ROM
  bytes packed into the kickstart memory, the PAL clock rate set and the media inserted.
\<close>

theorem missing_roms_abort_construction:
  "(\<not> fst (validate E AmigaA500Kickstart13 (rom_fetcher AmigaA500Kickstart13)) \<longrightarrow>
      ConcreteMachine_new E disks rom_fetcher m0 = Threw MissingROMs) \<and>
   (validate E AmigaA500Kickstart13 (rom_fetcher AmigaA500Kickstart13) = (True, roms) \<and>
    roms AmigaA500Kickstart13 = Some bytes \<longrightarrow>
      ConcreteMachine_new E disks rom_fetcher m0 =
        Constructed (snd (insert_media E disks
          (m0\<lparr>memory := PackBigEndian16_kickstart E bytes (memory m0),
              clock_rate := PALClockRate\<rparr>))))"
  by (auto simp: ConcreteMachine_new_def Let_def split: prod.splits)

theorem missing_roms_abort_construction_witness:
  "ConcreteMachine_new test_parts () (\<lambda>request. Map.empty) test_machine = Threw MissingROMs \<and>
   ConcreteMachine_new test_parts () (\<lambda>request. [AmigaA500Kickstart13 \<mapsto> [0x11, 0x14, 0x4e, 0xf9]])
       test_machine =
     Constructed (test_machine\<lparr>memory := [0x1114, 0x4ef9], clock_rate := 7093790\<rparr>)"
proof -
  have a: "ConcreteMachine_new test_parts () (\<lambda>request. Map.empty) test_machine = Threw MissingROMs"
    using missing_roms_abort_construction
      [where E = test_parts and rom_fetcher = "\<lambda>request. Map.empty" and disks = "()"
         and ?m0.0 = test_machine]
    by (simp add: test_parts_def)
  have b: "ConcreteMachine_new test_parts ()
       (\<lambda>request. [AmigaA500Kickstart13 \<mapsto> [0x11, 0x14, 0x4e, 0xf9]]) test_machine =
     Constructed (test_machine\<lparr>memory := [0x1114, 0x4ef9], clock_rate := 7093790\<rparr>)"
    using missing_roms_abort_construction
      [where E = test_parts
         and rom_fetcher = "\<lambda>request. [AmigaA500Kickstart13 \<mapsto> [0x11, 0x14, 0x4e, 0xf9]]"
         and roms = "[AmigaA500Kickstart13 \<mapsto> [0x11, 0x14, 0x4e, 0xf9]]"
         and bytes = "[0x11, 0x14, 0x4e, 0xf9]" and disks = "()" and ?m0.0 = test_machine]
    by (simp add: test_parts_def insert_media_def test_machine_def PALClockRate_def)
  from a b show ?thesis by (rule conjI)
qed

end
